theory Spec2Isabelle
  imports Main
begin

section \<open>Python values\<close>

text \<open>
  The service in \<^verbatim>\<open>src/main.py\<close> receives the text of a chat completion and turns it
  into an allocation. The text is modelled as a \<^typ>\<open>string\<close>: a Python \<^verbatim>\<open>str\<close> all of
  whose code points are below 256. A string decoded from JSON can hold any code point
  (through a \<^verbatim>\<open>\uXXXX\<close> escape), so decoded strings are lists of code points.
  Python's integers are unbounded, hence \<^typ>\<open>int\<close>. A \<^verbatim>\<open>float\<close> is kept as the
  numeral it was written with; no arithmetic is ever done on it. Two limits of the
  interpreter are part of the model, since they raise exceptions the program can see: the
  conversion of a string of more than 4300 decimal digits to an \<^verbatim>\<open>int\<close> raises
  \<^verbatim>\<open>ValueError\<close>, and a JSON document nested deeper than the recursion limit leaves room
  for raises \<^verbatim>\<open>RecursionError\<close>. How much room is left depends on the call stack, so it
  is a parameter. Running out of memory is outside the model.
\<close>

type_synonym ustring = "int list"

definition ustr :: "string \<Rightarrow> ustring" where
  "ustr s = map of_char s"

datatype pyfloat = Float string

datatype pyval =
    PNone
  | PBool bool
  | PInt int
  | PFloat pyfloat
  | PStr ustring
  | PList "pyval list"
  | PDict "(ustring \<times> pyval) list"

text \<open>
  A \<^verbatim>\<open>dict\<close> is an association list with distinct keys, in insertion order.
  \<^verbatim>\<open>d[k] = v\<close> replaces the value of a key that is present in place and appends a new
  key; \<^verbatim>\<open>d.get(k, default)\<close> looks the key up.
\<close>

fun dict_set :: "('k \<times> 'v) list \<Rightarrow> 'k \<Rightarrow> 'v \<Rightarrow> ('k \<times> 'v) list" where
  "dict_set [] k v = [(k, v)]"
| "dict_set ((k', v') # d) k v =
     (if k' = k then (k', v) # d else (k', v') # dict_set d k v)"

definition dict_get :: "('k \<times> 'v) list \<Rightarrow> 'k \<Rightarrow> 'v \<Rightarrow> 'v" where
  "dict_get d k dflt = (case map_of d k of Some v \<Rightarrow> v | None \<Rightarrow> dflt)"

datatype py_exception =
    JSONDecodeError
  | ValueError
  | RecursionError
  | TypeError
  | IndexError
  | AttributeError
  | ValidationError
  | APIError string

section \<open>The standard library: \<^verbatim>\<open>json.loads\<close>\<close>

text \<open>
  \<^verbatim>\<open>json.loads\<close> with its default arguments, as CPython's decoder reads a \<^verbatim>\<open>str\<close>:
  white space is blank, tab, line feed and carriage return; the constants are
  \<^verbatim>\<open>null\<close>, \<^verbatim>\<open>true\<close>, \<^verbatim>\<open>false\<close>, \<^verbatim>\<open>NaN\<close>, \<^verbatim>\<open>Infinity\<close> and \<^verbatim>\<open>-Infinity\<close>; a string may not
  hold a control character; of a repeated key the last value is kept. The document is
  read from left to right and the first failure is raised: a \<^verbatim>\<open>JSONDecodeError\<close> where
  the text is not JSON, a \<^verbatim>\<open>ValueError\<close> where a value is an integer of more than 4300
  digits, a \<^verbatim>\<open>RecursionError\<close> where a container is opened with no room left. Messages
  and positions are not modelled.
\<close>

definition is_digit :: "char \<Rightarrow> bool" where
  "is_digit c = (c \<in> set ''0123456789'')"

definition digit_val :: "char \<Rightarrow> int" where
  "digit_val c = of_char c - 48"

text \<open>The number that a string of decimal digits denotes.\<close>

definition int_of_digits :: "string \<Rightarrow> int" where
  "int_of_digits ds = foldl (\<lambda>n c. 10 * n + digit_val c) 0 ds"

text \<open>
  \<^verbatim>\<open>int(ds)\<close> for a non-empty string of decimal digits: the default limit
  \<^verbatim>\<open>sys.get_int_max_str_digits()\<close>, which the program does not change, is 4300 digits,
  leading zeros counted.
\<close>

definition int_max_str_digits :: int where
  "int_max_str_digits = 4300"

definition too_many_digits :: "string \<Rightarrow> bool" where
  "too_many_digits ds = (int_max_str_digits < int (length ds))"

definition py_int :: "string \<Rightarrow> py_exception + int" where
  "py_int ds = (if too_many_digits ds then Inl ValueError else Inr (int_of_digits ds))"

definition hex_val :: "char \<Rightarrow> int option" where
  "hex_val c =
     (if is_digit c then Some (of_char c - 48)
      else if c \<in> set ''abcdef'' then Some (of_char c - 87)
      else if c \<in> set ''ABCDEF'' then Some (of_char c - 55)
      else None)"

fun hex4 :: "string \<Rightarrow> int option" where
  "hex4 (a # b # c # d # _) =
     (case (hex_val a, hex_val b, hex_val c, hex_val d) of
        (Some w, Some x, Some y, Some z) \<Rightarrow> Some (((w * 16 + x) * 16 + y) * 16 + z)
      | _ \<Rightarrow> None)"
| "hex4 _ = None"

definition simple_escape :: "char \<Rightarrow> int option" where
  "simple_escape e =
     (if e = CHR 0x22 then Some 0x22
      else if e = CHR 0x5C then Some 0x5C
      else if e = CHR ''/'' then Some 0x2F
      else if e = CHR ''b'' then Some 0x08
      else if e = CHR ''f'' then Some 0x0C
      else if e = CHR ''n'' then Some 0x0A
      else if e = CHR ''r'' then Some 0x0D
      else if e = CHR ''t'' then Some 0x09
      else None)"

definition join_surrogates :: "int \<Rightarrow> int \<Rightarrow> int" where
  "join_surrogates hi lo = 0x10000 + (hi - 0xD800) * 0x400 + (lo - 0xDC00)"

text \<open>
  \<^verbatim>\<open>scanstring\<close>: the input after the opening quote and the code points read so far
  (latest first); the result is the decoded string and the input after the closing quote.
  A high surrogate escape directly followed by a low surrogate escape is one code point.
\<close>

fun scanstring :: "string \<Rightarrow> ustring \<Rightarrow> (ustring \<times> string) option" where
  "scanstring [] acc = None"
| "scanstring (c # cs) acc =
     (if c = CHR 0x22 then Some (rev acc, cs)
      else if c = CHR 0x5C then
        (case cs of
           [] \<Rightarrow> None
         | e # es \<Rightarrow>
             if e = CHR ''u'' then
               (case hex4 es of
                  None \<Rightarrow> None
                | Some hi \<Rightarrow>
                    if 0xD800 \<le> hi \<and> hi \<le> 0xDBFF \<and> take 2 (drop 4 es) = [CHR 0x5C, CHR ''u''] then
                      (case hex4 (drop 6 es) of
                         None \<Rightarrow> None
                       | Some lo \<Rightarrow>
                           if 0xDC00 \<le> lo \<and> lo \<le> 0xDFFF
                           then scanstring (drop 10 es) (join_surrogates hi lo # acc)
                           else scanstring (drop 4 es) (hi # acc))
                    else scanstring (drop 4 es) (hi # acc))
             else
               (case simple_escape e of
                  None \<Rightarrow> None
                | Some x \<Rightarrow> scanstring es (x # acc)))
      else if (of_char c :: int) < 32 then None
      else scanstring cs (of_char c # acc))"

text \<open>
  A number is the longest prefix of the form
  \<^verbatim>\<open>-?(0|[1-9][0-9]*)(\.[0-9]+)?([eE][-+]?[0-9]+)?\<close>; it is an \<^verbatim>\<open>int\<close> when it has neither
  fraction nor exponent, and a \<^verbatim>\<open>float\<close> otherwise.
\<close>

definition match_int_part :: "string \<Rightarrow> (string \<times> string) option" where
  "match_int_part s =
     (case s of
        [] \<Rightarrow> None
      | c # cs \<Rightarrow>
          if c = CHR ''0'' then Some ([c], cs)
          else if is_digit c then Some (c # takeWhile is_digit cs, dropWhile is_digit cs)
          else None)"

definition match_frac :: "string \<Rightarrow> string \<times> string" where
  "match_frac s =
     (case s of
        c # d # ds \<Rightarrow>
          if c = CHR ''.'' \<and> is_digit d
          then (c # takeWhile is_digit (d # ds), dropWhile is_digit (d # ds))
          else ([], s)
      | _ \<Rightarrow> ([], s))"

definition match_exp :: "string \<Rightarrow> string \<times> string" where
  "match_exp s =
     (case s of
        [] \<Rightarrow> ([], s)
      | e # r \<Rightarrow>
          if e = CHR ''e'' \<or> e = CHR ''E'' then
            (let sg = (case r of [] \<Rightarrow> [] | x # _ \<Rightarrow> if x = CHR ''+'' \<or> x = CHR ''-'' then [x] else []);
                 r' = drop (length sg) r
             in if r' \<noteq> [] \<and> is_digit (hd r')
                then (e # sg @ takeWhile is_digit r', dropWhile is_digit r')
                else ([], s))
          else ([], s))"

text \<open>
  What the lexer hands to the parser. \<open>TLongInt\<close> is an integer of too many digits, whose
  conversion raises when the parser takes it as a value; \<open>TBad\<close> stands where the text
  starts no token, and nothing after it is read.
\<close>

datatype token =
    TLBrace | TRBrace | TLBrack | TRBrack | TColon | TComma
  | TString ustring
  | TValue pyval
  | TLongInt
  | TBad

definition match_number :: "string \<Rightarrow> (token \<times> string) option" where
  "match_number s =
     (let neg = (s \<noteq> [] \<and> hd s = CHR ''-'');
          s1 = (if neg then tl s else s)
      in case match_int_part s1 of
           None \<Rightarrow> None
         | Some (ip, r1) \<Rightarrow>
             (case match_frac r1 of
                (fr, r2) \<Rightarrow>
                  (case match_exp r2 of
                     (ex, r3) \<Rightarrow>
                       if fr = [] \<and> ex = []
                       then
                         (if too_many_digits ip then Some (TLongInt, r3)
                          else Some (TValue (PInt (if neg then - int_of_digits ip else int_of_digits ip)), r3))
                       else Some (TValue (PFloat (Float ((if neg then ''-'' else []) @ ip @ fr @ ex))), r3))))"

definition starts_with :: "string \<Rightarrow> string \<Rightarrow> bool" where
  "starts_with p s = (take (length p) s = p)"

definition is_json_space :: "char \<Rightarrow> bool" where
  "is_json_space c = (c = CHR '' '' \<or> c = CHR 0x09 \<or> c = CHR 0x0A \<or> c = CHR 0x0D)"

lemma scanstring_length:
  "scanstring s acc = Some (u, r) \<Longrightarrow> length r < length s"
proof (induction s acc rule: scanstring.induct)
  case (1 acc)
  then show ?case by simp
next
  case (2 c cs acc)
  show ?case
  proof (cases "c = CHR 0x22")
    case True
    with "2.prems" show ?thesis by auto
  next
    case nq: False
    show ?thesis
    proof (cases "c = CHR 0x5C")
      case False
      with nq "2.prems" "2.IH"(5) show ?thesis
        by (auto split: if_splits)
    next
      case bs: True
      then obtain e es where cs: "cs = e # es"
        using "2.prems" by (cases cs) auto
      show ?thesis
      proof (cases "e = CHR ''u''")
        case False
        with bs cs "2.prems" "2.IH"(4)[OF nq bs cs False] show ?thesis
          by (auto split: option.splits)
      next
        case u: True
        then obtain hi where hi: "hex4 es = Some hi"
          using bs cs "2.prems" by (auto split: option.splits)
        let ?pair = "0xD800 \<le> hi \<and> hi \<le> 0xDBFF \<and> take 2 (drop 4 es) = [CHR 0x5C, CHR ''u'']"
        show ?thesis
        proof (cases ?pair)
          case False
          with bs cs u hi "2.prems" "2.IH"(3)[OF nq bs cs u hi False] show ?thesis
            by (auto split: if_splits)
        next
          case pr: True
          then obtain lo where lo: "hex4 (drop 6 es) = Some lo"
            using bs cs u hi "2.prems" by (auto split: option.splits)
          show ?thesis
          proof (cases "0xDC00 \<le> lo \<and> lo \<le> 0xDFFF")
            case True
            with bs cs u hi pr lo "2.prems" "2.IH"(1)[OF nq bs cs u hi pr lo True] show ?thesis
              by auto
          next
            case False
            with bs cs u hi pr lo "2.prems" "2.IH"(2)[OF nq bs cs u hi pr lo False] show ?thesis
              by auto
          qed
        qed
      qed
    qed
  qed
qed

lemma match_int_part_length:
  "match_int_part s = Some (ip, r) \<Longrightarrow> length r < length s"
  by (auto simp: match_int_part_def less_Suc_eq_le length_dropWhile_le
           split: list.splits if_splits)

lemma match_frac_length: "match_frac s = (fr, r) \<Longrightarrow> length r \<le> length s"
proof -
  have dw: "\<And>xs. length (dropWhile is_digit xs) \<le> length xs"
    by (rule length_dropWhile_le)
  assume "match_frac s = (fr, r)"
  then show ?thesis
    using dw by (fastforce simp: match_frac_def le_Suc_eq split: list.splits if_splits)
qed

lemma match_exp_length: "match_exp s = (ex, r) \<Longrightarrow> length r \<le> length s"
proof (cases s)
  case Nil
  assume "match_exp s = (ex, r)"
  with Nil show ?thesis by (simp add: match_exp_def)
next
  case (Cons e t)
  assume m: "match_exp s = (ex, r)"
  have "r = s \<or> (\<exists>k. r = dropWhile is_digit (drop k t))"
    using m Cons by (auto simp: match_exp_def Let_def split: if_splits)
  then show ?thesis
  proof
    assume "r = s"
    then show ?thesis by simp
  next
    assume "\<exists>k. r = dropWhile is_digit (drop k t)"
    then obtain k where r: "r = dropWhile is_digit (drop k t)" by blast
    have "length r \<le> length (drop k t)"
      unfolding r by (rule length_dropWhile_le)
    also have "\<dots> \<le> length t" by simp
    finally show ?thesis using Cons by simp
  qed
qed

lemma match_number_length:
  "match_number s = Some (v, r) \<Longrightarrow> length r < length s"
proof -
  assume m: "match_number s = Some (v, r)"
  define s1 where "s1 = (if s \<noteq> [] \<and> hd s = CHR ''-'' then tl s else s)"
  from m obtain ip r1 where ip: "match_int_part s1 = Some (ip, r1)"
    by (auto simp: match_number_def Let_def s1_def split: option.splits)
  obtain fr r2 where fr: "match_frac r1 = (fr, r2)" by (cases "match_frac r1")
  obtain ex r3 where ex: "match_exp r2 = (ex, r3)" by (cases "match_exp r2")
  from m ip fr ex have "r = r3"
    by (auto simp: match_number_def Let_def s1_def split: if_splits)
  moreover have "length r3 \<le> length r2" using ex by (rule match_exp_length)
  moreover have "length r2 \<le> length r1" using fr by (rule match_frac_length)
  moreover have "length r1 < length s1" using ip by (rule match_int_part_length)
  moreover have "length s1 \<le> length s" by (simp add: s1_def)
  ultimately show ?thesis by simp
qed

function tokenize :: "string \<Rightarrow> token list" where
  "tokenize [] = []"
| "tokenize (c # cs) =
     (if is_json_space c then tokenize cs
      else if c = CHR ''{'' then TLBrace # tokenize cs
      else if c = CHR ''}'' then TRBrace # tokenize cs
      else if c = CHR ''['' then TLBrack # tokenize cs
      else if c = CHR '']'' then TRBrack # tokenize cs
      else if c = CHR '':'' then TColon # tokenize cs
      else if c = CHR '','' then TComma # tokenize cs
      else if c = CHR 0x22 then
        (case scanstring cs [] of
           None \<Rightarrow> [TBad]
         | Some (u, r) \<Rightarrow> TString u # tokenize r)
      else if starts_with ''null'' (c # cs) then
        TValue PNone # tokenize (drop 3 cs)
      else if starts_with ''true'' (c # cs) then
        TValue (PBool True) # tokenize (drop 3 cs)
      else if starts_with ''false'' (c # cs) then
        TValue (PBool False) # tokenize (drop 4 cs)
      else if starts_with ''NaN'' (c # cs) then
        TValue (PFloat (Float ''NaN'')) # tokenize (drop 2 cs)
      else if starts_with ''Infinity'' (c # cs) then
        TValue (PFloat (Float ''Infinity'')) # tokenize (drop 7 cs)
      else if starts_with ''-Infinity'' (c # cs) then
        TValue (PFloat (Float ''-Infinity'')) # tokenize (drop 8 cs)
      else
        (case match_number (c # cs) of
           None \<Rightarrow> [TBad]
         | Some (tk, r) \<Rightarrow> tk # tokenize r))"
  by pat_completeness auto
termination
proof (relation "measure length")
  show "wf (measure length)" by simp
next
  fix c cs x2 x y
  assume "scanstring cs [] = Some x2" "(x, y) = x2"
  then have "scanstring cs [] = Some (x, y)" by simp
  then have "length y < length cs" by (rule scanstring_length)
  then show "(y, c # cs) \<in> measure length" by simp
next
  fix c cs x2 x y
  assume "match_number (c # cs) = Some x2" "(x, y) = x2"
  then have "match_number (c # cs) = Some (x, y)" by simp
  then have "length y < length (c # cs)" by (rule match_number_length)
  then show "(y, c # cs) \<in> measure length" by simp
qed simp_all

text \<open>
  The parser reads the tokens one at a time. Its stack holds the containers that are
  still open: an array with its elements so far (latest first), an object with its pairs
  so far, or an object with a key whose value is being read. A token that cannot stand
  where it is found is a \<^verbatim>\<open>JSONDecodeError\<close>, whatever the token. Where a value is read, a
  container is opened only when fewer than \<open>room\<close> containers are open.
\<close>

datatype frame =
    FArr "pyval list"
  | FObj "(ustring \<times> pyval) list"
  | FKey "(ustring \<times> pyval) list" ustring

datatype expect =
    XValue
  | XValueOrEnd
  | XKeyOrEnd
  | XKey
  | XColon
  | XAfter
  | XDone pyval

definition or_decode_error :: "'a option \<Rightarrow> py_exception + 'a" where
  "or_decode_error x = (case x of None \<Rightarrow> Inl JSONDecodeError | Some y \<Rightarrow> Inr y)"

fun push_value :: "frame list \<Rightarrow> pyval \<Rightarrow> (expect \<times> frame list) option" where
  "push_value [] v = Some (XDone v, [])"
| "push_value (FArr xs # st) v = Some (XAfter, FArr (v # xs) # st)"
| "push_value (FKey kvs k # st) v = Some (XAfter, FObj (dict_set kvs k v) # st)"
| "push_value (FObj kvs # st) v = None"

fun begin_value :: "int \<Rightarrow> frame list \<Rightarrow> token \<Rightarrow> py_exception + (expect \<times> frame list)" where
  "begin_value room st (TString u) = or_decode_error (push_value st (PStr u))"
| "begin_value room st (TValue v) = or_decode_error (push_value st v)"
| "begin_value room st TLongInt = Inl ValueError"
| "begin_value room st TLBrace =
     (if int (length st) < room then Inr (XKeyOrEnd, FObj [] # st) else Inl RecursionError)"
| "begin_value room st TLBrack =
     (if int (length st) < room then Inr (XValueOrEnd, FArr [] # st) else Inl RecursionError)"
| "begin_value room st _ = Inl JSONDecodeError"

fun begin_key :: "frame list \<Rightarrow> token \<Rightarrow> (expect \<times> frame list) option" where
  "begin_key (FObj kvs # st) (TString k) = Some (XColon, FKey kvs k # st)"
| "begin_key _ _ = None"

fun parse_step ::
  "int \<Rightarrow> expect \<times> frame list \<Rightarrow> token \<Rightarrow> py_exception + (expect \<times> frame list)" where
  "parse_step room (XValue, st) t = begin_value room st t"
| "parse_step room (XValueOrEnd, FArr xs # st) TRBrack = or_decode_error (push_value st (PList (rev xs)))"
| "parse_step room (XValueOrEnd, st) t = begin_value room st t"
| "parse_step room (XKeyOrEnd, FObj kvs # st) TRBrace = or_decode_error (push_value st (PDict kvs))"
| "parse_step room (XKeyOrEnd, st) t = or_decode_error (begin_key st t)"
| "parse_step room (XKey, st) t = or_decode_error (begin_key st t)"
| "parse_step room (XColon, st) TColon = Inr (XValue, st)"
| "parse_step room (XAfter, FArr xs # st) TComma = Inr (XValue, FArr xs # st)"
| "parse_step room (XAfter, FArr xs # st) TRBrack = or_decode_error (push_value st (PList (rev xs)))"
| "parse_step room (XAfter, FObj kvs # st) TComma = Inr (XKey, FObj kvs # st)"
| "parse_step room (XAfter, FObj kvs # st) TRBrace = or_decode_error (push_value st (PDict kvs))"
| "parse_step room _ _ = Inl JSONDecodeError"

fun parse_tokens :: "int \<Rightarrow> expect \<times> frame list \<Rightarrow> token list \<Rightarrow> py_exception + pyval" where
  "parse_tokens room (XDone v, st) [] = Inr v"
| "parse_tokens room _ [] = Inl JSONDecodeError"
| "parse_tokens room s (t # ts) =
     (case parse_step room s t of Inl e \<Rightarrow> Inl e | Inr s' \<Rightarrow> parse_tokens room s' ts)"

definition json_loads :: "int \<Rightarrow> string \<Rightarrow> py_exception + pyval" where
  "json_loads room s = parse_tokens room (XValue, []) (tokenize s)"

text \<open>
  A state of the parser in which the outermost container is an object: the lowest frame
  of the stack is an object, or the value read is a dictionary.
\<close>

fun object_frame :: "frame \<Rightarrow> bool" where
  "object_frame (FArr xs) = False"
| "object_frame (FObj kvs) = True"
| "object_frame (FKey kvs k) = True"

definition bottom_object :: "frame list \<Rightarrow> bool" where
  "bottom_object st = (st \<noteq> [] \<and> object_frame (last st))"

fun reading_object :: "expect \<times> frame list \<Rightarrow> bool" where
  "reading_object (XDone v, st) = (st = [] \<and> (case v of PDict d \<Rightarrow> True | _ \<Rightarrow> False))"
| "reading_object (x, st) = bottom_object st"

section \<open>The trend catalog\<close>

definition MARKET_TRENDS :: "(string \<times> string) list" where
  "MARKET_TRENDS =
     [(''NIFTY 50'', ''Expected to increase by 10-12% in the next year due to strong economic growth and corporate earnings but riskier''),
      (''Gold'', ''Expected to increase by 8-10% in the next year due to global economic uncertainty and inflation concerns''),
      (''Bonds'', ''Expected to yield 6-7% in the next year with moderate risk''),
      (''Mutual Funds'', ''Expected to increase by 8-10% in the next year less risky due to diversification over multiple stocks by experts'')]"

section \<open>The standard library: the two regular expressions\<close>

text \<open>
  \<^verbatim>\<open>re.search(r'\{[\s\S]*\}', text)\<close> tries the start positions from the left. The
  pattern needs a \<^verbatim>\<open>{\<close> at the start; the star is greedy and \<^verbatim>\<open>[\s\S]\<close> is any character,
  so the match runs to the last \<^verbatim>\<open>}\<close> of the text. When no \<^verbatim>\<open>}\<close> follows the first \<^verbatim>\<open>{\<close>,
  none follows a later one either, and there is no match. The result is
  \<^verbatim>\<open>match.group(0)\<close>.
\<close>

definition json_pattern_search :: "string \<Rightarrow> string option" where
  "json_pattern_search text =
     (let s = dropWhile (\<lambda>c. c \<noteq> CHR ''{'') text;
          m = rev (dropWhile (\<lambda>c. c \<noteq> CHR ''}'') (rev s))
      in if m = [] then None else Some m)"

text \<open>
  \<^verbatim>\<open>re.search(rf"{asset}.*?(\d+)%", text, re.IGNORECASE)\<close>. The asset names hold letters,
  digits and blanks only, so the name is matched literally, letters in either case. The
  dot is any character but the line feed, and \<^verbatim>\<open>.*?\<close> is lazy: after the name, the
  engine tries \<^verbatim>\<open>(\d+)%\<close> at once, and moves one character further each time that
  fails. \<^verbatim>\<open>\d+\<close> is greedy; giving digits back never helps, since the character after a
  shorter run is a digit and not \<^verbatim>\<open>%\<close>. The result is \<^verbatim>\<open>match.group(1)\<close>. Among the
  code points below 256, \<^verbatim>\<open>\d\<close> is one of the ten ASCII digits, and ignoring case
  identifies an ASCII letter with its other case only.
\<close>

definition lower_ascii :: "char \<Rightarrow> char" where
  "lower_ascii c =
     (if c \<in> set ''ABCDEFGHIJKLMNOPQRSTUVWXYZ'' then char_of (of_char c + (32::int)) else c)"

fun name_matches_at :: "string \<Rightarrow> string \<Rightarrow> bool" where
  "name_matches_at [] s = True"
| "name_matches_at (a # as) [] = False"
| "name_matches_at (a # as) (c # cs) =
     (if lower_ascii c = lower_ascii a then name_matches_at as cs else False)"

definition digits_percent :: "string \<Rightarrow> string option" where
  "digits_percent s =
     (let d = takeWhile is_digit s
      in if d \<noteq> [] \<and> take 1 (dropWhile is_digit s) = ''%'' then Some d else None)"

fun lazy_gap :: "string \<Rightarrow> string option" where
  "lazy_gap [] = None"
| "lazy_gap (c # cs) =
     (case digits_percent (c # cs) of
        Some d \<Rightarrow> Some d
      | None \<Rightarrow> if c = CHR 0x0A then None else lazy_gap cs)"

definition asset_match_at :: "string \<Rightarrow> string \<Rightarrow> string option" where
  "asset_match_at asset s =
     (if name_matches_at asset s then lazy_gap (drop (length asset) s) else None)"

fun asset_pattern_search :: "string \<Rightarrow> string \<Rightarrow> string option" where
  "asset_pattern_search asset [] = None"
| "asset_pattern_search asset (c # cs) =
     (case asset_match_at asset (c # cs) of
        Some d \<Rightarrow> Some d
      | None \<Rightarrow> asset_pattern_search asset cs)"

section \<open>The response extractor\<close>

text \<open>
  The loop over \<^verbatim>\<open>MARKET_TRENDS.keys()\<close>, with the dictionary built so far. An exception
  of \<^verbatim>\<open>int(match.group(1))\<close> ends the loop and leaves the function.
\<close>

fun collect_allocation ::
  "string list \<Rightarrow> string \<Rightarrow> (ustring \<times> pyval) list \<Rightarrow> py_exception + (ustring \<times> pyval) list" where
  "collect_allocation [] text allocation = Inr allocation"
| "collect_allocation (asset # assets) text allocation =
     (case asset_pattern_search asset text of
        None \<Rightarrow> collect_allocation assets text allocation
      | Some d \<Rightarrow>
          (case py_int d of
             Inl e \<Rightarrow> Inl e
           | Inr n \<Rightarrow> collect_allocation assets text (dict_set allocation (ustr asset) (PInt n))))"

definition cash_result :: pyval where
  "cash_result =
     PDict [(ustr ''allocation'', PDict [(ustr ''Cash'', PInt 100)]),
            (ustr ''explanation'',
             PStr (ustr ''Unable to parse specific allocations. Please review the full response for details.''))]"

text \<open>The part of \<^verbatim>\<open>extract_json_from_text\<close> after the attempt to read JSON.\<close>

definition regex_fallback :: "string \<Rightarrow> py_exception + pyval" where
  "regex_fallback text =
     (case collect_allocation (map fst MARKET_TRENDS) text [] of
        Inl e \<Rightarrow> Inl e
      | Inr allocation \<Rightarrow>
          if allocation \<noteq> []
          then Inr (PDict [(ustr ''allocation'', PDict allocation),
                          (ustr ''explanation'', PStr (ustr text))])
          else Inr cash_result)"

text \<open>
  Only \<^verbatim>\<open>json.JSONDecodeError\<close> is caught; any other exception of \<^verbatim>\<open>json.loads\<close> leaves
  the function. \<open>room\<close> is the number of containers the JSON decoder may have open at
  once before the recursion limit is reached.
\<close>

definition extract_json_from_text :: "int \<Rightarrow> string \<Rightarrow> py_exception + pyval" where
  "extract_json_from_text room text =
     (case json_pattern_search text of
        Some m \<Rightarrow>
          (case json_loads room m of
             Inr v \<Rightarrow> Inr v
           | Inl e \<Rightarrow> if e = JSONDecodeError then regex_fallback text else Inl e)
      | None \<Rightarrow> regex_fallback text)"

subsection \<open>The search for percentages, stated on the text\<close>


text \<open>The same with no line feed between the name and the digits.\<close>

definition line_asset_percent :: "string \<Rightarrow> string \<Rightarrow> string \<Rightarrow> bool" where
  "line_asset_percent asset t d \<longleftrightarrow>
     (\<exists>pre name gap post.
        t = pre @ name @ gap @ d @ CHR ''%'' # post \<and>
        map lower_ascii name = map lower_ascii asset \<and>
        CHR 0x0A \<notin> set gap \<and>
        d \<noteq> [] \<and> list_all is_digit d)"

text \<open>The pattern at the very start of a text, with no line feed in the gap.\<close>

definition asset_percent_at :: "string \<Rightarrow> string \<Rightarrow> string \<Rightarrow> bool" where
  "asset_percent_at asset s d \<longleftrightarrow>
     (\<exists>name gap post.
        s = name @ gap @ d @ CHR ''%'' # post \<and>
        map lower_ascii name = map lower_ascii asset \<and>
        CHR 0x0A \<notin> set gap \<and>
        d \<noteq> [] \<and> list_all is_digit d)"

text \<open>No run of digits with a percent sign after it starts inside the gap.\<close>

definition no_percent_inside :: "string \<Rightarrow> string \<Rightarrow> bool" where
  "no_percent_inside gap rest \<longleftrightarrow>
     (\<forall>g1 g2 d' post'. gap = g1 @ g2 \<longrightarrow> g2 \<noteq> [] \<longrightarrow> d' \<noteq> [] \<longrightarrow> list_all is_digit d' \<longrightarrow>
        g2 @ rest \<noteq> d' @ CHR ''%'' # post')"

text \<open>
  The match that \<^verbatim>\<open>re.search\<close> reports: the leftmost start at which the pattern matches,
  and from there the first run of digits with a percent sign after it.
\<close>

definition first_asset_percent :: "string \<Rightarrow> string \<Rightarrow> string \<Rightarrow> bool" where
  "first_asset_percent asset t d \<longleftrightarrow>
     (\<exists>pre name gap post.
        t = pre @ name @ gap @ d @ CHR ''%'' # post \<and>
        map lower_ascii name = map lower_ascii asset \<and>
        CHR 0x0A \<notin> set gap \<and>
        d \<noteq> [] \<and> list_all is_digit d \<and>
        no_percent_inside gap (d @ CHR ''%'' # post) \<and>
        (\<forall>p1 p2 d'. pre = p1 @ p2 \<longrightarrow> p2 \<noteq> [] \<longrightarrow>
           \<not> asset_percent_at asset (p2 @ name @ gap @ d @ CHR ''%'' # post) d'))"

text \<open>
  The mapping from each asset of the catalog that is found to the integer found for it, in
  the order of the catalog.
\<close>

definition matched_allocation :: "string \<Rightarrow> (ustring \<times> pyval) list" where
  "matched_allocation t =
     List.map_filter
       (\<lambda>asset. map_option (\<lambda>d. (ustr asset, PInt (int_of_digits d))) (asset_pattern_search asset t))
       (map fst MARKET_TRENDS)"

text \<open>
  Some asset of the catalog is found with a run of digits too long for \<^verbatim>\<open>int\<close>.
\<close>

definition long_run_found :: "string \<Rightarrow> bool" where
  "long_run_found t \<longleftrightarrow>
     (\<exists>a\<in>set (map fst MARKET_TRENDS). \<exists>d. asset_pattern_search a t = Some d \<and> too_many_digits d)"

section \<open>The request handler\<close>

text \<open>
  What the handler takes from its surroundings is gathered in a record: the process
  environment (\<^verbatim>\<open>os.getenv\<close>), the completion service behind
  \<^verbatim>\<open>client.chat.completions.create\<close>, which answers or raises, Python's \<^verbatim>\<open>str(e)\<close> for an
  exception, the rendering of a float with the format \<^verbatim>\<open>,.2f\<close>, and the room the
  recursion limit leaves to the JSON decoder. The number of calls made to the completion
  service is passed along explicitly. The model ends where the handler returns a response
  or raises an \<^verbatim>\<open>HTTPException\<close>; how the framework encodes either is not part of it.
\<close>

record azure_client =
  api_key :: string
  api_version :: string
  azure_endpoint :: string

record chat_request =
  model :: "string option"
  messages :: "(string \<times> string) list"
  temperature :: pyfloat
  max_tokens :: int

datatype chat_completion = ChatCompletion (choices: "string option list")

record runtime =
  getenv :: "string \<Rightarrow> string option"
  create :: "chat_request \<Rightarrow> py_exception + chat_completion"
  exc_str :: "py_exception \<Rightarrow> string"
  format_amount :: "pyfloat \<Rightarrow> string"
  recursion_room :: int

record investment_request =
  age :: int
  investment_amount :: pyfloat
  market_forecast :: "string option"

record investment_response =
  allocation_percentage :: "(ustring \<times> pyval) list"
  recommendation :: ustring

record http_exception =
  status_code :: nat
  detail :: string

text \<open>
  Start-up: \<^verbatim>\<open>not x\<close> holds of a variable that is unset or empty. The
  \<^verbatim>\<open>ValueError\<close> raised then is caught, and \<^verbatim>\<open>client\<close> is \<^verbatim>\<open>None\<close>. Otherwise the three
  variables are set, and the client is built from the key and the endpoint.
\<close>

definition falsy :: "string option \<Rightarrow> bool" where
  "falsy x = (x = None \<or> x = Some [])"

definition init_body :: "(string \<Rightarrow> string option) \<Rightarrow> py_exception + azure_client" where
  "init_body env =
     (let key = env ''AZURE_OPENAI_API_KEY'';
          endpoint = env ''AZURE_OPENAI_ENDPOINT'';
          deployment = env ''AZURE_OPENAI_DEPLOYMENT''
      in if falsy key \<or> falsy endpoint \<or> falsy deployment then Inl ValueError
         else Inr \<lparr>api_key = the key, api_version = ''2025-01-01-preview'',
                   azure_endpoint = the endpoint\<rparr>)"

definition init_client :: "(string \<Rightarrow> string option) \<Rightarrow> azure_client option" where
  "init_client env = (case init_body env of Inl e \<Rightarrow> None | Inr c \<Rightarrow> Some c)"

text \<open>
  The response model: \<^verbatim>\<open>allocation_percentage: dict\<close>, \<^verbatim>\<open>recommendation: str\<close>. Building
  it validates the two fields, as pydantic 2 does: a dictionary is taken as it is,
  whatever it holds, a string likewise, and any other value raises a
  \<^verbatim>\<open>ValidationError\<close>.
\<close>

definition InvestmentResponse :: "pyval \<Rightarrow> pyval \<Rightarrow> py_exception + investment_response" where
  "InvestmentResponse a r =
     (case a of
        PDict d \<Rightarrow>
          (case r of
             PStr s \<Rightarrow> Inr \<lparr>allocation_percentage = d, recommendation = s\<rparr>
           | _ \<Rightarrow> Inl ValidationError)
      | _ \<Rightarrow> Inl ValidationError)"

function digits_of :: "int \<Rightarrow> string" where
  "digits_of n =
     (if n < 10 then [char_of (48 + n)]
      else digits_of (n div 10) @ [char_of (48 + n mod 10)])"
  by auto
termination
  by (relation "measure nat") auto

definition str_int :: "int \<Rightarrow> string" where
  "str_int i = (if i < 0 then CHR ''-'' # digits_of (- i) else digits_of i)"

fun join :: "string \<Rightarrow> string list \<Rightarrow> string" where
  "join sep [] = []"
| "join sep [x] = x"
| "join sep (x # y # ys) = x @ sep @ join sep (y # ys)"

definition NL :: string where
  "NL = [CHR 0x0A]"

definition market_trends_text :: string where
  "market_trends_text =
     join NL (map (\<lambda>(asset, trend). ''- '' @ asset @ '': '' @ trend) MARKET_TRENDS)"

definition build_prompt :: "runtime \<Rightarrow> investment_request \<Rightarrow> string" where
  \<open>build_prompt rt request =
     NL @
     ''        As a financial advisor, analyze the following investment scenario and provide allocation recommendations:'' @ NL @
     ''        '' @ NL @
     ''        Investor Age: '' @ str_int (age request) @ NL @
     ''        Investment Amount: $'' @ format_amount rt (investment_amount request) @ NL @
     ''        '' @ NL @
     ''        Current Market Trends and Forecasts (Next 1 Year):'' @ NL @
     ''        '' @ market_trends_text @ NL @
     ''        take additional information regarding returns from various asset classes from yfinance with tickers of each asset class as follows'' @ NL @
     ''    NIFTY 50 - "^NSEI", Gold - "GC=F" (Gold Futures), US 10Y Bonds - "^TNX", Mutual Funds - "^HDFCQUAL.BO".'' @ NL @
     ''        Additional Market Context:'' @ NL @
     ''        '' @
       (case market_forecast request of
          None \<Rightarrow> ''No additional market forecast provided''
        | Some f \<Rightarrow> if f = [] then ''No additional market forecast provided'' else f) @ NL @
     ''        '' @ NL @
     ''        Please provide:'' @ NL @
     ''        1. A detailed allocation percentage breakdown across different asset classes (stocks, bonds, cash, etc.)'' @ NL @
     ''        2. A brief explanation for the allocation strategy, taking into account the provided market trends'' @ NL @
     ''        '' @ NL @
     ''        Format your response as a JSON object with '' @ [CHR 0x27] @ ''allocation'' @ [CHR 0x27] @
       '' and '' @ [CHR 0x27] @ ''explanation'' @ [CHR 0x27] @ '' fields.'' @ NL @
     ''        ''\<close>

definition completion_request :: "runtime \<Rightarrow> investment_request \<Rightarrow> chat_request" where
  "completion_request rt request =
     \<lparr>model = getenv rt ''AZURE_OPENAI_DEPLOYMENT'',
      messages =
        [(''system'', ''You are a professional financial advisor. Always respond with valid JSON.''),
         (''user'', build_prompt rt request)],
      temperature = Float ''0.7'',
      max_tokens = 1000\<rparr>"

text \<open>One call of the completion service: it answers or raises, and is counted.\<close>

definition call_create ::
  "runtime \<Rightarrow> chat_request \<Rightarrow> nat \<Rightarrow> (py_exception + chat_completion) \<times> nat" where
  "call_create rt req calls = (create rt req, Suc calls)"

text \<open>
  The \<^verbatim>\<open>try\<close> block. \<^verbatim>\<open>choices[0]\<close> of an empty list raises \<^verbatim>\<open>IndexError\<close>; a message
  without content (\<^verbatim>\<open>None\<close>) makes \<^verbatim>\<open>re.search\<close> raise \<^verbatim>\<open>TypeError\<close>; \<^verbatim>\<open>.get\<close> on a value
  that is not a dictionary raises \<^verbatim>\<open>AttributeError\<close>; the response model rejects a field
  of the wrong type with a \<^verbatim>\<open>ValidationError\<close>.
\<close>

definition response_of :: "pyval \<Rightarrow> py_exception + investment_response" where
  "response_of allocation_data =
     (case allocation_data of
        PDict d \<Rightarrow>
          InvestmentResponse (dict_get d (ustr ''allocation'') (PDict []))
            (dict_get d (ustr ''explanation'') (PStr []))
      | _ \<Rightarrow> Inl AttributeError)"

definition try_block ::
  "runtime \<Rightarrow> investment_request \<Rightarrow> nat \<Rightarrow> (py_exception + investment_response) \<times> nat" where
  "try_block rt request calls =
     (case call_create rt (completion_request rt request) calls of
        (Inl e, calls') \<Rightarrow> (Inl e, calls')
      | (Inr completion, calls') \<Rightarrow>
          (case choices completion of
             [] \<Rightarrow> (Inl IndexError, calls')
           | None # _ \<Rightarrow> (Inl TypeError, calls')
           | Some response_text # _ \<Rightarrow>
               (case extract_json_from_text (recursion_room rt) response_text of
                  Inl e \<Rightarrow> (Inl e, calls')
                | Inr allocation_data \<Rightarrow> (response_of allocation_data, calls'))))"

definition allocate_investment ::
  "azure_client option \<Rightarrow> runtime \<Rightarrow> investment_request \<Rightarrow> nat
     \<Rightarrow> (http_exception + investment_response) \<times> nat" where
  "allocate_investment client rt request calls =
     (if client = None
      then (Inl \<lparr>status_code = 500, detail = ''Azure OpenAI client not initialized properly''\<rparr>, calls)
      else
        (case try_block rt request calls of
           (Inl e, calls') \<Rightarrow> (Inl \<lparr>status_code = 500, detail = exc_str rt e\<rparr>, calls')
         | (Inr response, calls') \<Rightarrow> (Inr response, calls')))"

subsection \<open>Fixtures for the examples\<close>

text \<open>
  A configured client, a completion service that answers with a fixed list of
  choices, one that raises, and a request.
\<close>

definition stub_client :: azure_client where
  "stub_client = \<lparr>api_key = ''key'', api_version = ''2025-01-01-preview'',
                   azure_endpoint = ''https://example.invalid''\<rparr>"

fun stub_str :: "py_exception \<Rightarrow> string" where
  "stub_str (APIError m) = m"
| "stub_str JSONDecodeError = ''JSONDecodeError''"
| "stub_str ValueError = ''ValueError''"
| "stub_str RecursionError = ''RecursionError''"
| "stub_str TypeError = ''TypeError''"
| "stub_str IndexError = ''IndexError''"
| "stub_str AttributeError = ''AttributeError''"
| "stub_str ValidationError = ''ValidationError''"

definition stub_runtime :: "py_exception + chat_completion \<Rightarrow> runtime" where
  "stub_runtime answer =
     \<lparr>getenv = (\<lambda>k. Some ''gpt''), create = (\<lambda>req. answer), exc_str = stub_str,
      format_amount = (\<lambda>x. ''100,000.00''), recursion_room = 900\<rparr>"

definition answering :: "string \<Rightarrow> runtime" where
  "answering text = stub_runtime (Inr (ChatCompletion [Some text]))"

definition stub_request :: investment_request where
  "stub_request = \<lparr>age = 30, investment_amount = Float ''100000'', market_forecast = None\<rparr>"

definition unset_env :: "string \<Rightarrow> string option" where
  "unset_env k = None"

text \<open>A run of 4301 digits, one more than \<^verbatim>\<open>int\<close> converts.\<close>

definition ones :: string where
  "ones = replicate 4301 CHR ''1''"

section \<open>A text that starts with a brace is read as an object\<close>

lemma or_decode_error_Inr: "or_decode_error x = Inr y \<longleftrightarrow> x = Some y"
  by (cases x) (auto simp: or_decode_error_def)

lemma bottom_object_Cons:
  "bottom_object (f # st) = (if st = [] then object_frame f else bottom_object st)"
  by (simp add: bottom_object_def)

lemma bottom_object_Nil: "\<not> bottom_object []"
  by (simp add: bottom_object_def)

lemma push_value_bottom:
  "bottom_object st \<Longrightarrow> push_value st v = Some s' \<Longrightarrow> reading_object s'"
  by (cases "(st, v)" rule: push_value.cases)
     (auto simp: bottom_object_Cons bottom_object_Nil split: if_splits)

lemma push_value_close:
  assumes "bottom_object (f # st)" and "push_value st (PDict d) = Some s'"
  shows "reading_object s'"
proof (cases "st = []")
  case True
  with assms(2) show ?thesis by auto
next
  case False
  with assms(1) have "bottom_object st" by (simp add: bottom_object_Cons)
  then show ?thesis using assms(2) by (rule push_value_bottom)
qed

lemma push_value_close_array:
  assumes "bottom_object (FArr xs # st)" and "push_value st v = Some s'"
  shows "reading_object s'"
proof -
  from assms(1) have "bottom_object st"
    by (simp add: bottom_object_Cons split: if_splits)
  then show ?thesis using assms(2) by (rule push_value_bottom)
qed

lemma begin_value_bottom:
  "bottom_object st \<Longrightarrow> begin_value room st t = Inr s' \<Longrightarrow> reading_object s'"
  by (cases "(room, st, t)" rule: begin_value.cases)
     (auto simp: bottom_object_Cons bottom_object_Nil or_decode_error_Inr
           dest: push_value_bottom split: if_splits)

lemma begin_key_bottom:
  "bottom_object st \<Longrightarrow> begin_key st t = Some s' \<Longrightarrow> reading_object s'"
  by (cases "(st, t)" rule: begin_key.cases)
     (auto simp: bottom_object_Cons bottom_object_Nil split: if_splits)

lemma parse_step_reading_object:
  assumes "reading_object s" and "parse_step room s t = Inr s'"
  shows "reading_object s'"
proof (cases s)
  case (Pair x st)
  show ?thesis
  proof (cases x)
    case XValue
    with Pair assms show ?thesis by (auto dest: begin_value_bottom)
  next
    case XValueOrEnd
    with Pair assms have b: "bottom_object st" by simp
    show ?thesis
    proof (cases "\<exists>xs st'. st = FArr xs # st' \<and> t = TRBrack")
      case True
      then obtain xs st' where "st = FArr xs # st'" "t = TRBrack" by blast
      with Pair XValueOrEnd assms(2) b show ?thesis
        by (auto simp: or_decode_error_Inr dest: push_value_close_array)
    next
      case False
      with Pair XValueOrEnd assms(2) have "begin_value room st t = Inr s'"
        by (cases "(room, s, t)" rule: parse_step.cases) auto
      with b show ?thesis by (rule begin_value_bottom)
    qed
  next
    case XKeyOrEnd
    with Pair assms have b: "bottom_object st" by simp
    show ?thesis
    proof (cases "\<exists>kvs st'. st = FObj kvs # st' \<and> t = TRBrace")
      case True
      then obtain kvs st' where "st = FObj kvs # st'" "t = TRBrace" by blast
      with Pair XKeyOrEnd assms(2) b show ?thesis
        by (auto simp: or_decode_error_Inr dest: push_value_close)
    next
      case False
      with Pair XKeyOrEnd assms(2) have "begin_key st t = Some s'"
        by (cases "(room, s, t)" rule: parse_step.cases) (auto simp: or_decode_error_Inr)
      with b show ?thesis by (rule begin_key_bottom)
    qed
  next
    case XKey
    with Pair assms show ?thesis by (auto simp: or_decode_error_Inr dest: begin_key_bottom)
  next
    case XColon
    with Pair assms show ?thesis
      by (cases "(room, s, t)" rule: parse_step.cases) auto
  next
    case XAfter
    with Pair assms have b: "bottom_object st" by simp
    from Pair XAfter assms(2) b show ?thesis
      by (cases "(room, s, t)" rule: parse_step.cases)
         (auto simp: or_decode_error_Inr dest: push_value_close_array push_value_close)
  next
    case (XDone v)
    with Pair assms show ?thesis by simp
  qed
qed

lemma parse_tokens_reading_object:
  "reading_object s \<Longrightarrow> parse_tokens room s ts = Inr v \<Longrightarrow> \<exists>d. v = PDict d"
proof (induction ts arbitrary: s)
  case Nil
  then show ?case
    by (cases "(room, s, [] :: token list)" rule: parse_tokens.cases) (auto split: pyval.splits)
next
  case (Cons t ts)
  from Cons.prems(2) obtain s' where st: "parse_step room s t = Inr s'"
    and r: "parse_tokens room s' ts = Inr v"
    by (cases s) (auto split: sum.splits)
  from parse_step_reading_object[OF Cons.prems(1) st] r show ?case
    by (rule Cons.IH)
qed

lemma tokenize_brace: "tokenize (CHR ''{'' # cs) = TLBrace # tokenize cs"
  by (simp add: is_json_space_def)

lemma json_loads_object:
  assumes "json_loads room (CHR ''{'' # cs) = Inr v"
  shows "\<exists>d. v = PDict d"
proof -
  have p: "parse_tokens room (XValue, []) (TLBrace # tokenize cs) = Inr v"
    using assms unfolding json_loads_def tokenize_brace .
  then have "parse_tokens room (XKeyOrEnd, [FObj []]) (tokenize cs) = Inr v"
    by (auto split: if_splits)
  moreover have "reading_object (XKeyOrEnd, [FObj []])" by (simp add: bottom_object_def)
  ultimately show ?thesis by (rule parse_tokens_reading_object[rotated])
qed

section \<open>Properties of the two searches\<close>

lemma json_pattern_search_embedded:
  assumes "CHR ''{'' \<notin> set pre" and "CHR ''}'' \<notin> set post"
  shows "json_pattern_search (pre @ CHR ''{'' # body @ CHR ''}'' # post)
         = Some (CHR ''{'' # body @ [CHR ''}''])"
proof -
  have 1: "dropWhile (\<lambda>c. c \<noteq> CHR ''{'') (pre @ CHR ''{'' # body @ CHR ''}'' # post)
           = CHR ''{'' # body @ CHR ''}'' # post"
    using assms(1) by (auto simp: dropWhile_append)
  have 2: "dropWhile (\<lambda>c. c \<noteq> CHR ''}'') (rev post @ CHR ''}'' # rev body @ [CHR ''{''])
           = CHR ''}'' # rev body @ [CHR ''{'']"
    using assms(2) by (auto simp: dropWhile_append)
  show ?thesis
    unfolding json_pattern_search_def Let_def 1 by (simp add: 2)
qed

lemma json_pattern_search_Some:
  assumes "json_pattern_search t = Some m"
  shows "\<exists>pre body post. t = pre @ m @ post \<and> m = CHR ''{'' # body @ [CHR ''}'']
           \<and> CHR ''{'' \<notin> set pre \<and> CHR ''}'' \<notin> set post"
proof -
  define pre where "pre = takeWhile (\<lambda>c. c \<noteq> CHR ''{'') t"
  define s where "s = dropWhile (\<lambda>c. c \<noteq> CHR ''{'') t"
  define post where "post = rev (takeWhile (\<lambda>c. c \<noteq> CHR ''}'') (rev s))"
  define w where "w = dropWhile (\<lambda>c. c \<noteq> CHR ''}'') (rev s)"
  have m: "m = rev w" and ne: "w \<noteq> []"
    using assms by (auto simp: json_pattern_search_def Let_def s_def w_def split: if_splits)
  have decomp: "t = pre @ s" by (simp add: pre_def s_def)
  have "rev s = rev post @ w"
    by (simp add: post_def w_def)
  then have "rev (rev s) = rev (rev post @ w)" by (rule arg_cong)
  then have s: "s = m @ post" by (simp add: m)
  have pre: "CHR ''{'' \<notin> set pre"
    unfolding pre_def by (auto dest: set_takeWhileD)
  have post: "CHR ''}'' \<notin> set post"
    unfolding post_def by (auto dest: set_takeWhileD)
  from ne s m have sne: "s \<noteq> []" by simp
  have hds: "hd s = CHR ''{''"
    using hd_dropWhile[of "\<lambda>c. c \<noteq> CHR ''{''" "t"] sne by (simp add: s_def)
  have hdw: "hd w = CHR ''}''"
    using hd_dropWhile[of "\<lambda>c. c \<noteq> CHR ''}''" "rev s"] ne by (simp add: w_def)
  obtain u where w: "w = CHR ''}'' # u"
    using ne hdw by (cases w) auto
  have mt: "m = rev u @ [CHR ''}'']" by (simp add: m w)
  have "hd m = CHR ''{''"
    using hds s m ne by (cases m) auto
  then have "rev u \<noteq> []" using mt by auto
  then obtain body where b: "rev u = CHR ''{'' # body"
    using \<open>hd m = CHR ''{''\<close> mt by (cases "rev u") auto
  have "m = CHR ''{'' # body @ [CHR ''}'']" by (simp add: mt b)
  with decomp s pre post show ?thesis by blast
qed

lemma json_pattern_search_None:
  "json_pattern_search t = None \<longleftrightarrow>
     \<not> (\<exists>pre mid post. t = pre @ CHR ''{'' # mid @ CHR ''}'' # post)"
proof
  assume n: "json_pattern_search t = None"
  show "\<not> (\<exists>pre mid post. t = pre @ CHR ''{'' # mid @ CHR ''}'' # post)"
  proof
    assume "\<exists>pre mid post. t = pre @ CHR ''{'' # mid @ CHR ''}'' # post"
    then obtain pre mid post where t: "t = pre @ CHR ''{'' # mid @ CHR ''}'' # post" by blast
    define s where "s = dropWhile (\<lambda>c. c \<noteq> CHR ''{'') t"
    have "CHR ''}'' \<in> set s"
      unfolding s_def t by (auto simp: dropWhile_append)
    then have "dropWhile (\<lambda>c. c \<noteq> CHR ''}'') (rev s) \<noteq> []"
      by (auto simp: dropWhile_eq_Nil_conv)
    then have "json_pattern_search t \<noteq> None"
      by (simp add: json_pattern_search_def Let_def s_def)
    with n show False by simp
  qed
next
  assume a: "\<not> (\<exists>pre mid post. t = pre @ CHR ''{'' # mid @ CHR ''}'' # post)"
  show "json_pattern_search t = None"
  proof (cases "json_pattern_search t")
    case None
    then show ?thesis .
  next
    case (Some m)
    from json_pattern_search_Some[OF Some] obtain pre body post where
      "t = pre @ m @ post" "m = CHR ''{'' # body @ [CHR ''}'']" by blast
    then have "t = pre @ CHR ''{'' # body @ CHR ''}'' # post" by simp
    with a show ?thesis by blast
  qed
qed

lemma name_matches_at_iff:
  "name_matches_at asset s \<longleftrightarrow>
     (\<exists>name rest. s = name @ rest \<and> map lower_ascii name = map lower_ascii asset)"
proof (induction asset s rule: name_matches_at.induct)
  case (1 s)
  then show ?case by simp
next
  case (2 a as)
  then show ?case by simp
next
  case (3 a as c cs)
  show ?case
  proof
    assume "name_matches_at (a # as) (c # cs)"
    then have h: "lower_ascii c = lower_ascii a" "name_matches_at as cs"
      by (auto split: if_splits)
    with 3 obtain name rest where "cs = name @ rest" "map lower_ascii name = map lower_ascii as"
      by auto
    with h(1) have "c # cs = (c # name) @ rest \<and> map lower_ascii (c # name) = map lower_ascii (a # as)"
      by simp
    then show "\<exists>name rest. c # cs = name @ rest \<and> map lower_ascii name = map lower_ascii (a # as)"
      by blast
  next
    assume "\<exists>name rest. c # cs = name @ rest \<and> map lower_ascii name = map lower_ascii (a # as)"
    then obtain name rest where n: "c # cs = name @ rest" "map lower_ascii name = map lower_ascii (a # as)"
      by blast
    from n(2) obtain x xs where x: "name = x # xs" by (cases name) auto
    with n have "c = x" "cs = xs @ rest" "lower_ascii x = lower_ascii a"
      "map lower_ascii xs = map lower_ascii as" by auto
    with 3 show "name_matches_at (a # as) (c # cs)" by auto
  qed
qed

lemma not_digit_percent: "\<not> is_digit CHR ''%''"
  by (simp add: is_digit_def)

lemma digits_percent_iff:
  "digits_percent s = Some d \<longleftrightarrow>
     d \<noteq> [] \<and> list_all is_digit d \<and> (\<exists>post. s = d @ CHR ''%'' # post)"
proof
  assume a: "digits_percent s = Some d"
  then have d: "d = takeWhile is_digit s" and ne: "d \<noteq> []"
    and p: "take 1 (dropWhile is_digit s) = [CHR ''%'']"
    by (auto simp: digits_percent_def Let_def split: if_splits)
  from p obtain post where "dropWhile is_digit s = CHR ''%'' # post"
    by (cases "dropWhile is_digit s") auto
  then have "s = d @ CHR ''%'' # post"
    using takeWhile_dropWhile_id[of is_digit s] d by simp
  moreover have "list_all is_digit d"
    unfolding d by (auto simp: list_all_iff dest: set_takeWhileD)
  ultimately show "d \<noteq> [] \<and> list_all is_digit d \<and> (\<exists>post. s = d @ CHR ''%'' # post)"
    using ne by blast
next
  assume "d \<noteq> [] \<and> list_all is_digit d \<and> (\<exists>post. s = d @ CHR ''%'' # post)"
  then obtain post where ne: "d \<noteq> []" and dg: "list_all is_digit d"
    and s: "s = d @ CHR ''%'' # post" by blast
  have t: "takeWhile is_digit s = d"
    unfolding s using dg not_digit_percent by (simp add: takeWhile_append2 list_all_iff)
  have dr: "dropWhile is_digit s = CHR ''%'' # post"
    unfolding s using dg not_digit_percent
    by (simp add: list_all_iff dropWhile_append)
  show "digits_percent s = Some d"
    using ne by (simp add: digits_percent_def Let_def t dr)
qed

lemma lazy_gap_sound:
  "lazy_gap s = Some d \<Longrightarrow>
     \<exists>gap post. s = gap @ d @ CHR ''%'' # post \<and> CHR 0x0A \<notin> set gap \<and> d \<noteq> [] \<and> list_all is_digit d"
proof (induction s)
  case Nil
  then show ?case by simp
next
  case (Cons c cs)
  show ?case
  proof (cases "digits_percent (c # cs)")
    case (Some d')
    with Cons.prems have "d' = d" by simp
    with Some digits_percent_iff[of "c # cs" d] obtain post where
      "c # cs = [] @ d @ CHR ''%'' # post" "d \<noteq> []" "list_all is_digit d" by auto
    then show ?thesis by (metis empty_iff list.set(1))
  next
    case None
    with Cons.prems have nl: "c \<noteq> CHR 0x0A" and r: "lazy_gap cs = Some d"
      by (auto split: if_splits)
    from Cons.IH[OF r] obtain gap post where
      g: "cs = gap @ d @ CHR ''%'' # post" "CHR 0x0A \<notin> set gap" "d \<noteq> []" "list_all is_digit d"
      by blast
    have "c # cs = (c # gap) @ d @ CHR ''%'' # post \<and> CHR 0x0A \<notin> set (c # gap)"
      using g nl by simp
    with g show ?thesis by blast
  qed
qed

lemma lazy_gap_complete:
  assumes "CHR 0x0A \<notin> set gap" "d \<noteq> []" "list_all is_digit d"
  shows "\<exists>d'. lazy_gap (gap @ d @ CHR ''%'' # post) = Some d'"
  using assms(1)
proof (induction gap)
  case Nil
  have "digits_percent (d @ CHR ''%'' # post) = Some d"
    using assms(2,3) by (simp add: digits_percent_iff)
  moreover obtain x xs where "d @ CHR ''%'' # post = x # xs"
    using assms(2) by (cases d) auto
  ultimately show ?case by simp
next
  case (Cons g gap)
  then obtain d' where "lazy_gap (gap @ d @ CHR ''%'' # post) = Some d'" by auto
  with Cons.prems show ?case
    by (cases "digits_percent (g # gap @ d @ CHR ''%'' # post)") auto
qed

lemma map_lower_length:
  "map lower_ascii name = map lower_ascii asset \<Longrightarrow> length name = length asset"
  by (metis length_map)

lemma asset_match_at_sound:
  assumes "asset_match_at asset s = Some d"
  shows "\<exists>name gap post. s = name @ gap @ d @ CHR ''%'' # post \<and>
           map lower_ascii name = map lower_ascii asset \<and>
           CHR 0x0A \<notin> set gap \<and> d \<noteq> [] \<and> list_all is_digit d"
proof -
  from assms have nm: "name_matches_at asset s" and lg: "lazy_gap (drop (length asset) s) = Some d"
    by (auto simp: asset_match_at_def split: if_splits)
  from nm obtain name rest where s: "s = name @ rest" and n: "map lower_ascii name = map lower_ascii asset"
    by (auto simp: name_matches_at_iff)
  have "drop (length asset) s = rest"
    using s map_lower_length[OF n] by simp
  with lazy_gap_sound[OF lg] obtain gap post where
    "rest = gap @ d @ CHR ''%'' # post" "CHR 0x0A \<notin> set gap" "d \<noteq> []" "list_all is_digit d"
    by auto
  with s n show ?thesis by blast
qed

lemma asset_match_at_complete:
  assumes "map lower_ascii name = map lower_ascii asset"
    and "CHR 0x0A \<notin> set gap" "d \<noteq> []" "list_all is_digit d"
  shows "\<exists>d'. asset_match_at asset (name @ gap @ d @ CHR ''%'' # post) = Some d'"
proof -
  have "name_matches_at asset (name @ gap @ d @ CHR ''%'' # post)"
    using assms(1) by (auto simp: name_matches_at_iff)
  moreover have "drop (length asset) (name @ gap @ d @ CHR ''%'' # post) = gap @ d @ CHR ''%'' # post"
    using map_lower_length[OF assms(1)] by simp
  ultimately show ?thesis
    using lazy_gap_complete[OF assms(2-4), of post] by (simp add: asset_match_at_def)
qed

lemma asset_pattern_search_sound:
  "asset_pattern_search asset t = Some d \<Longrightarrow> line_asset_percent asset t d"
proof (induction t)
  case Nil
  then show ?case by simp
next
  case (Cons c cs)
  show ?case
  proof (cases "asset_match_at asset (c # cs)")
    case (Some d')
    with Cons.prems have "asset_match_at asset (c # cs) = Some d" by simp
    from asset_match_at_sound[OF this] obtain name gap post where
      "c # cs = [] @ name @ gap @ d @ CHR ''%'' # post"
      "map lower_ascii name = map lower_ascii asset"
      "CHR 0x0A \<notin> set gap" "d \<noteq> []" "list_all is_digit d" by auto
    then show ?thesis unfolding line_asset_percent_def by blast
  next
    case None
    with Cons.prems have "asset_pattern_search asset cs = Some d" by simp
    from Cons.IH[OF this] obtain pre name gap post where
      c: "cs = pre @ name @ gap @ d @ CHR ''%'' # post"
      and r: "map lower_ascii name = map lower_ascii asset"
      "CHR 0x0A \<notin> set gap" "d \<noteq> []" "list_all is_digit d"
      unfolding line_asset_percent_def by blast
    from c have "c # cs = (c # pre) @ name @ gap @ d @ CHR ''%'' # post" by simp
    with r show ?thesis unfolding line_asset_percent_def by blast
  qed
qed



lemma no_percent_inside_Nil: "no_percent_inside [] rest"
  by (simp add: no_percent_inside_def)

lemma no_percent_inside_Cons:
  "no_percent_inside (g # gap) rest \<longleftrightarrow>
     digits_percent (g # gap @ rest) = None \<and> no_percent_inside gap rest"
proof
  assume a: "no_percent_inside (g # gap) rest"
  have "digits_percent (g # gap @ rest) = None"
  proof (cases "digits_percent (g # gap @ rest)")
    case (Some d')
    then obtain post' where "d' \<noteq> []" "list_all is_digit d'" "g # gap @ rest = d' @ CHR ''%'' # post'"
      by (auto simp: digits_percent_iff)
    with a[unfolded no_percent_inside_def, rule_format, of "[]" "g # gap" d' post']
    show ?thesis by simp
  qed simp
  moreover have "no_percent_inside gap rest"
    unfolding no_percent_inside_def
  proof (intro allI impI)
    fix g1 g2 d' post'
    assume "gap = g1 @ g2" "g2 \<noteq> []" "d' \<noteq> []" "list_all is_digit d'"
    with a[unfolded no_percent_inside_def, rule_format, of "g # g1" g2 d' post']
    show "g2 @ rest \<noteq> d' @ CHR ''%'' # post'" by simp
  qed
  ultimately show "digits_percent (g # gap @ rest) = None \<and> no_percent_inside gap rest" ..
next
  assume b: "digits_percent (g # gap @ rest) = None \<and> no_percent_inside gap rest"
  show "no_percent_inside (g # gap) rest"
    unfolding no_percent_inside_def
  proof (intro allI impI)
    fix g1 g2 d' post'
    assume h: "g # gap = g1 @ g2" "g2 \<noteq> []" "d' \<noteq> []" "list_all is_digit d'"
    show "g2 @ rest \<noteq> d' @ CHR ''%'' # post'"
    proof (cases g1)
      case Nil
      with h(1) have g2: "g2 = g # gap" by simp
      show ?thesis
      proof
        assume "g2 @ rest = d' @ CHR ''%'' # post'"
        with g2 h(3,4) have "digits_percent (g # gap @ rest) = Some d'"
          by (auto simp: digits_percent_iff)
        with b show False by simp
      qed
    next
      case (Cons x xs)
      with h(1) have "gap = xs @ g2" by simp
      with b h(2-4) show ?thesis
        unfolding no_percent_inside_def by blast
    qed
  qed
qed

lemma lazy_gap_first:
  "lazy_gap s = Some d \<Longrightarrow>
     \<exists>gap post. s = gap @ d @ CHR ''%'' # post \<and> CHR 0x0A \<notin> set gap \<and> d \<noteq> [] \<and>
        list_all is_digit d \<and> no_percent_inside gap (d @ CHR ''%'' # post)"
proof (induction s)
  case Nil
  then show ?case by simp
next
  case (Cons c cs)
  show ?case
  proof (cases "digits_percent (c # cs)")
    case (Some d')
    with Cons.prems have "d' = d" by simp
    with Some digits_percent_iff[of "c # cs" d] obtain post where
      "c # cs = [] @ d @ CHR ''%'' # post" "d \<noteq> []" "list_all is_digit d" by auto
    moreover have "CHR 0x0A \<notin> set ([] :: string)" by simp
    ultimately show ?thesis using no_percent_inside_Nil by blast
  next
    case None
    with Cons.prems have nl: "c \<noteq> CHR 0x0A" and r: "lazy_gap cs = Some d"
      by (auto split: if_splits)
    from Cons.IH[OF r] obtain gap post where
      g: "cs = gap @ d @ CHR ''%'' # post" "CHR 0x0A \<notin> set gap" "d \<noteq> []" "list_all is_digit d"
         "no_percent_inside gap (d @ CHR ''%'' # post)"
      by blast
    have "c # cs = (c # gap) @ d @ CHR ''%'' # post" using g(1) by simp
    moreover have "CHR 0x0A \<notin> set (c # gap)" using g(2) nl by simp
    moreover have "no_percent_inside (c # gap) (d @ CHR ''%'' # post)"
      using None g(1,5) by (simp add: no_percent_inside_Cons)
    ultimately show ?thesis using g(3,4) by blast
  qed
qed

lemma lazy_gap_first_conv:
  assumes "d \<noteq> []" "list_all is_digit d"
  shows "CHR 0x0A \<notin> set gap \<Longrightarrow> no_percent_inside gap (d @ CHR ''%'' # post) \<Longrightarrow>
         lazy_gap (gap @ d @ CHR ''%'' # post) = Some d"
proof (induction gap)
  case Nil
  have "digits_percent (d @ CHR ''%'' # post) = Some d"
    using assms by (simp add: digits_percent_iff)
  moreover obtain x xs where "d @ CHR ''%'' # post = x # xs"
    using assms(1) by (cases d) auto
  ultimately show ?case by simp
next
  case (Cons g gap)
  then show ?case by (auto simp: no_percent_inside_Cons)
qed

lemma asset_match_at_first:
  "asset_match_at asset s = Some d \<longleftrightarrow>
     (\<exists>name gap post. s = name @ gap @ d @ CHR ''%'' # post \<and>
        map lower_ascii name = map lower_ascii asset \<and> CHR 0x0A \<notin> set gap \<and>
        d \<noteq> [] \<and> list_all is_digit d \<and> no_percent_inside gap (d @ CHR ''%'' # post))"
proof
  assume a: "asset_match_at asset s = Some d"
  then have nm: "name_matches_at asset s" and lg: "lazy_gap (drop (length asset) s) = Some d"
    by (auto simp: asset_match_at_def split: if_splits)
  from nm obtain name rest where s: "s = name @ rest" and n: "map lower_ascii name = map lower_ascii asset"
    by (auto simp: name_matches_at_iff)
  have "drop (length asset) s = rest"
    using s map_lower_length[OF n] by simp
  with lazy_gap_first[OF lg] obtain gap post where
    "rest = gap @ d @ CHR ''%'' # post" "CHR 0x0A \<notin> set gap" "d \<noteq> []" "list_all is_digit d"
    "no_percent_inside gap (d @ CHR ''%'' # post)"
    by auto
  with s n show "\<exists>name gap post. s = name @ gap @ d @ CHR ''%'' # post \<and>
        map lower_ascii name = map lower_ascii asset \<and> CHR 0x0A \<notin> set gap \<and>
        d \<noteq> [] \<and> list_all is_digit d \<and> no_percent_inside gap (d @ CHR ''%'' # post)"
    by blast
next
  assume "\<exists>name gap post. s = name @ gap @ d @ CHR ''%'' # post \<and>
        map lower_ascii name = map lower_ascii asset \<and> CHR 0x0A \<notin> set gap \<and>
        d \<noteq> [] \<and> list_all is_digit d \<and> no_percent_inside gap (d @ CHR ''%'' # post)"
  then obtain name gap post where s: "s = name @ gap @ d @ CHR ''%'' # post"
    and n: "map lower_ascii name = map lower_ascii asset"
    and g: "CHR 0x0A \<notin> set gap" "d \<noteq> []" "list_all is_digit d"
           "no_percent_inside gap (d @ CHR ''%'' # post)"
    by blast
  have "name_matches_at asset s"
    using n s by (auto simp: name_matches_at_iff)
  moreover have "drop (length asset) s = gap @ d @ CHR ''%'' # post"
    using s map_lower_length[OF n] by simp
  ultimately show "asset_match_at asset s = Some d"
    using lazy_gap_first_conv[OF g(2,3) g(1) g(4)] by (simp add: asset_match_at_def)
qed

lemma asset_match_at_None:
  "asset_match_at asset s = None \<longleftrightarrow> (\<forall>d. \<not> asset_percent_at asset s d)"
proof
  assume n: "asset_match_at asset s = None"
  show "\<forall>d. \<not> asset_percent_at asset s d"
  proof (intro allI notI)
    fix d assume "asset_percent_at asset s d"
    then obtain name gap post where "s = name @ gap @ d @ CHR ''%'' # post"
      "map lower_ascii name = map lower_ascii asset" "CHR 0x0A \<notin> set gap" "d \<noteq> []"
      "list_all is_digit d"
      unfolding asset_percent_at_def by blast
    with asset_match_at_complete[of name asset gap d post] n show False by auto
  qed
next
  assume a: "\<forall>d. \<not> asset_percent_at asset s d"
  show "asset_match_at asset s = None"
  proof (cases "asset_match_at asset s")
    case (Some d)
    from asset_match_at_sound[OF Some] have "asset_percent_at asset s d"
      unfolding asset_percent_at_def by blast
    with a show ?thesis by blast
  qed simp
qed

lemma asset_pattern_search_first:
  "asset_pattern_search asset t = Some d \<longleftrightarrow> first_asset_percent asset t d"
proof
  assume "asset_pattern_search asset t = Some d"
  then have "\<exists>pre s. t = pre @ s \<and> asset_match_at asset s = Some d \<and>
               (\<forall>p1 p2. pre = p1 @ p2 \<longrightarrow> p2 \<noteq> [] \<longrightarrow> asset_match_at asset (p2 @ s) = None)"
  proof (induction t)
    case Nil
    then show ?case by simp
  next
    case (Cons c cs)
    show ?case
    proof (cases "asset_match_at asset (c # cs)")
      case (Some d')
      with Cons.prems have "asset_match_at asset (c # cs) = Some d" by simp
      then have "c # cs = [] @ (c # cs) \<and> asset_match_at asset (c # cs) = Some d \<and>
               (\<forall>p1 p2. [] = p1 @ p2 \<longrightarrow> p2 \<noteq> [] \<longrightarrow> asset_match_at asset (p2 @ c # cs) = None)"
        by simp
      then show ?thesis by blast
    next
      case None
      with Cons.prems have "asset_pattern_search asset cs = Some d" by simp
      from Cons.IH[OF this] obtain pre s where cs: "cs = pre @ s"
        and m: "asset_match_at asset s = Some d"
        and e: "\<forall>p1 p2. pre = p1 @ p2 \<longrightarrow> p2 \<noteq> [] \<longrightarrow> asset_match_at asset (p2 @ s) = None"
        by blast
      have "\<forall>p1 p2. c # pre = p1 @ p2 \<longrightarrow> p2 \<noteq> [] \<longrightarrow> asset_match_at asset (p2 @ s) = None"
      proof (intro allI impI)
        fix p1 p2 assume h: "c # pre = p1 @ p2" "p2 \<noteq> []"
        show "asset_match_at asset (p2 @ s) = None"
        proof (cases p1)
          case Nil
          with h(1) have "p2 = c # pre" by simp
          with cs None show ?thesis by simp
        next
          case (Cons x xs)
          with h(1) have "pre = xs @ p2" by simp
          with e h(2) show ?thesis by blast
        qed
      qed
      moreover have "c # cs = (c # pre) @ s" using cs by simp
      ultimately show ?thesis using m by blast
    qed
  qed
  then obtain pre s where t: "t = pre @ s" and m: "asset_match_at asset s = Some d"
    and e: "\<forall>p1 p2. pre = p1 @ p2 \<longrightarrow> p2 \<noteq> [] \<longrightarrow> asset_match_at asset (p2 @ s) = None"
    by blast
  from m obtain name gap post where s: "s = name @ gap @ d @ CHR ''%'' # post"
    and r: "map lower_ascii name = map lower_ascii asset" "CHR 0x0A \<notin> set gap"
      "d \<noteq> []" "list_all is_digit d" "no_percent_inside gap (d @ CHR ''%'' # post)"
    unfolding asset_match_at_first by blast
  have "\<forall>p1 p2 d'. pre = p1 @ p2 \<longrightarrow> p2 \<noteq> [] \<longrightarrow>
           \<not> asset_percent_at asset (p2 @ name @ gap @ d @ CHR ''%'' # post) d'"
    using e unfolding s asset_match_at_None by blast
  with t s r show "first_asset_percent asset t d"
    unfolding first_asset_percent_def by blast
next
  assume "first_asset_percent asset t d"
  then obtain pre name gap post where t: "t = pre @ name @ gap @ d @ CHR ''%'' # post"
    and r: "map lower_ascii name = map lower_ascii asset" "CHR 0x0A \<notin> set gap"
      "d \<noteq> []" "list_all is_digit d" "no_percent_inside gap (d @ CHR ''%'' # post)"
    and e: "\<forall>p1 p2 d'. pre = p1 @ p2 \<longrightarrow> p2 \<noteq> [] \<longrightarrow>
           \<not> asset_percent_at asset (p2 @ name @ gap @ d @ CHR ''%'' # post) d'"
    unfolding first_asset_percent_def by blast
  define s where "s = name @ gap @ d @ CHR ''%'' # post"
  have m: "asset_match_at asset s = Some d"
    unfolding asset_match_at_first s_def using r by blast
  have e': "\<forall>p1 p2. pre = p1 @ p2 \<longrightarrow> p2 \<noteq> [] \<longrightarrow> asset_match_at asset (p2 @ s) = None"
    using e unfolding s_def asset_match_at_None by blast
  have "asset_pattern_search asset (pre @ s) = Some d"
    using e'
  proof (induction pre)
    case Nil
    from m have "s \<noteq> []" by (auto simp: asset_match_at_def split: if_splits)
    then obtain c cs where "s = c # cs" by (cases s) auto
    with m show ?case by simp
  next
    case (Cons p pre)
    from Cons.prems have "asset_match_at asset (p # pre @ s) = None"
      by (metis append_Cons append_Nil list.distinct(1))
    moreover have "\<forall>p1 p2. pre = p1 @ p2 \<longrightarrow> p2 \<noteq> [] \<longrightarrow> asset_match_at asset (p2 @ s) = None"
      using Cons.prems by (metis append_Cons)
    ultimately show ?case using Cons.IH by simp
  qed
  then show "asset_pattern_search asset t = Some d"
    unfolding t s_def by simp
qed

lemma first_asset_percent_unique:
  "first_asset_percent asset t d \<Longrightarrow> first_asset_percent asset t d' \<Longrightarrow> d = d'"
  unfolding asset_pattern_search_first[symmetric] by simp



lemma ustr_inj: "ustr a = ustr b \<longleftrightarrow> a = b"
proof
  assume "ustr a = ustr b"
  then show "a = b"
    unfolding ustr_def
  proof (induction a arbitrary: b)
    case Nil
    then show ?case by simp
  next
    case (Cons x xs)
    then show ?case by (cases b) auto
  qed
qed simp

lemma dict_set_fresh: "k \<notin> fst ` set d \<Longrightarrow> dict_set d k v = d @ [(k, v)]"
  by (induction d) auto

lemma py_int_cases:
  "py_int d = (if too_many_digits d then Inl ValueError else Inr (int_of_digits d))"
  by (simp add: py_int_def)

lemma collect_allocation_Inr:
  assumes "distinct assets" and "\<forall>a\<in>set assets. ustr a \<notin> fst ` set acc"
    and "\<forall>a\<in>set assets. \<forall>d. asset_pattern_search a t = Some d \<longrightarrow> \<not> too_many_digits d"
  shows "collect_allocation assets t acc =
           Inr (acc @ List.map_filter
                   (\<lambda>asset. map_option (\<lambda>d. (ustr asset, PInt (int_of_digits d)))
                      (asset_pattern_search asset t)) assets)"
  using assms
proof (induction assets arbitrary: acc)
  case Nil
  then show ?case by (simp add: List.map_filter_simps)
next
  case (Cons a assets)
  show ?case
  proof (cases "asset_pattern_search a t")
    case None
    with Cons show ?thesis by (simp add: List.map_filter_simps)
  next
    case (Some d)
    let ?acc = "acc @ [(ustr a, PInt (int_of_digits d))]"
    from Cons.prems(3) Some have short: "\<not> too_many_digits d" by simp
    have f: "dict_set acc (ustr a) (PInt (int_of_digits d)) = ?acc"
      using Cons.prems(2) by (simp add: dict_set_fresh)
    have "\<forall>b\<in>set assets. ustr b \<notin> fst ` set ?acc"
      using Cons.prems by (auto simp: ustr_inj)
    with Cons.IH[of ?acc] Cons.prems(1,3)
    have "collect_allocation assets t ?acc = Inr (?acc @ List.map_filter
                   (\<lambda>asset. map_option (\<lambda>d. (ustr asset, PInt (int_of_digits d)))
                      (asset_pattern_search asset t)) assets)"
      by simp
    with Some f short show ?thesis by (simp add: List.map_filter_simps py_int_cases)
  qed
qed

lemma collect_allocation_Inl:
  assumes "\<exists>a\<in>set assets. \<exists>d. asset_pattern_search a t = Some d \<and> too_many_digits d"
  shows "collect_allocation assets t acc = Inl ValueError"
  using assms
proof (induction assets arbitrary: acc)
  case Nil
  then show ?case by simp
next
  case (Cons a assets)
  show ?case
  proof (cases "asset_pattern_search a t")
    case None
    with Cons.prems have "\<exists>a\<in>set assets. \<exists>d. asset_pattern_search a t = Some d \<and> too_many_digits d"
      by auto
    with Cons.IH None show ?thesis by simp
  next
    case (Some d)
    show ?thesis
    proof (cases "too_many_digits d")
      case True
      with Some show ?thesis by (simp add: py_int_cases)
    next
      case False
      with Cons.prems Some
      have "\<exists>a\<in>set assets. \<exists>d. asset_pattern_search a t = Some d \<and> too_many_digits d"
        by auto
      with Cons.IH Some False show ?thesis by (simp add: py_int_cases)
    qed
  qed
qed

lemma distinct_catalog: "distinct (map fst MARKET_TRENDS)"
  by (simp add: MARKET_TRENDS_def)

lemma collect_allocation_catalog:
  "collect_allocation (map fst MARKET_TRENDS) t [] =
     (if long_run_found t then Inl ValueError else Inr (matched_allocation t))"
proof (cases "long_run_found t")
  case True
  then show ?thesis
    using collect_allocation_Inl[of "map fst MARKET_TRENDS" t "[]"]
    unfolding long_run_found_def by simp
next
  case False
  then have "\<forall>a\<in>set (map fst MARKET_TRENDS). \<forall>d. asset_pattern_search a t = Some d \<longrightarrow> \<not> too_many_digits d"
    unfolding long_run_found_def by blast
  from collect_allocation_Inr[OF distinct_catalog _ this, of "[]"] False
  show ?thesis by (simp add: matched_allocation_def)
qed

lemma set_map_filter: "set (List.map_filter f xs) = {y. \<exists>x\<in>set xs. f x = Some y}"
proof (induction xs)
  case Nil
  then show ?case by (simp add: List.map_filter_simps)
next
  case (Cons x xs)
  then show ?case by (cases "f x") (auto simp: List.map_filter_simps)
qed

lemma matched_allocation_member:
  "(k, v) \<in> set (matched_allocation t) \<longleftrightarrow>
     (\<exists>asset d. asset \<in> set (map fst MARKET_TRENDS) \<and> asset_pattern_search asset t = Some d \<and>
                k = ustr asset \<and> v = PInt (int_of_digits d))"
  unfolding matched_allocation_def set_map_filter by auto

lemma matched_allocation_empty:
  "matched_allocation t = [] \<longleftrightarrow>
     (\<forall>asset\<in>set (map fst MARKET_TRENDS). asset_pattern_search asset t = None)"
proof
  assume e: "matched_allocation t = []"
  show "\<forall>asset\<in>set (map fst MARKET_TRENDS). asset_pattern_search asset t = None"
  proof
    fix asset assume a: "asset \<in> set (map fst MARKET_TRENDS)"
    show "asset_pattern_search asset t = None"
    proof (cases "asset_pattern_search asset t")
      case (Some d)
      with a have "(ustr asset, PInt (int_of_digits d)) \<in> set (matched_allocation t)"
        unfolding matched_allocation_member by blast
      with e show ?thesis by simp
    qed simp
  qed
next
  assume n: "\<forall>asset\<in>set (map fst MARKET_TRENDS). asset_pattern_search asset t = None"
  show "matched_allocation t = []"
  proof (cases "matched_allocation t")
    case Nil
    then show ?thesis .
  next
    case (Cons kv rest)
    obtain k v where "kv = (k, v)" by (cases kv)
    with Cons have "(k, v) \<in> set (matched_allocation t)" by simp
    then obtain asset d where mem: "asset \<in> set (map fst MARKET_TRENDS)"
      and sm: "asset_pattern_search asset t = Some d"
      unfolding matched_allocation_member by blast
    from n mem have "asset_pattern_search asset t = None" by (rule bspec)
    with sm show ?thesis by simp
  qed
qed

lemma distinct_map_filter_keys:
  "distinct assets \<Longrightarrow>
   distinct (map fst (List.map_filter
       (\<lambda>asset. map_option (\<lambda>d. (ustr asset, PInt (int_of_digits d))) (asset_pattern_search asset t))
       assets))"
proof (induction assets)
  case Nil
  then show ?case by (simp add: List.map_filter_simps)
next
  case (Cons a assets)
  then show ?case
    by (cases "asset_pattern_search a t")
       (auto simp: List.map_filter_simps set_map_filter ustr_inj)
qed

lemma matched_allocation_distinct: "distinct (map fst (matched_allocation t))"
  unfolding matched_allocation_def by (rule distinct_map_filter_keys[OF distinct_catalog])

lemma digit_val_nonneg: "is_digit c \<Longrightarrow> 0 \<le> digit_val c"
  by (auto simp: is_digit_def digit_val_def)

lemma foldl_digits_nonneg:
  "list_all is_digit ds \<Longrightarrow> 0 \<le> n \<Longrightarrow> 0 \<le> foldl (\<lambda>n c. 10 * n + digit_val c) n ds"
proof (induction ds arbitrary: n)
  case Nil
  then show ?case by simp
next
  case (Cons c ds)
  from Cons.prems have "0 \<le> 10 * n + digit_val c"
    using digit_val_nonneg[of c] by simp
  with Cons show ?case by simp
qed

lemma int_of_digits_nonneg: "list_all is_digit ds \<Longrightarrow> 0 \<le> int_of_digits ds"
  by (simp add: int_of_digits_def foldl_digits_nonneg)

lemma asset_pattern_search_digits:
  "asset_pattern_search asset t = Some d \<Longrightarrow> d \<noteq> [] \<and> list_all is_digit d"
  by (auto dest!: asset_pattern_search_sound simp: line_asset_percent_def)

lemma regex_fallback_eq:
  "regex_fallback t =
     (if long_run_found t then Inl ValueError
      else if matched_allocation t \<noteq> []
      then Inr (PDict [(ustr ''allocation'', PDict (matched_allocation t)),
                      (ustr ''explanation'', PStr (ustr t))])
      else Inr cash_result)"
  by (simp add: regex_fallback_def collect_allocation_catalog)

lemma extract_no_json:
  assumes "json_pattern_search t = None \<or>
           (\<exists>m. json_pattern_search t = Some m \<and> json_loads room m = Inl JSONDecodeError)"
  shows "extract_json_from_text room t = regex_fallback t"
  using assms by (auto simp: extract_json_from_text_def)

section \<open>Properties of the extractor and of the handler\<close>

lemma dict_get_allocation:
  "dict_get [(ustr ''allocation'', a), (ustr ''explanation'', e)] (ustr ''allocation'') d = a"
  by (simp add: dict_get_def)

lemma dict_get_explanation:
  "dict_get [(ustr ''allocation'', a), (ustr ''explanation'', e)] (ustr ''explanation'') d = e"
  by (simp add: dict_get_def ustr_def)

lemma try_block_calls: "snd (try_block rt request calls) = Suc calls"
  by (simp add: try_block_def call_create_def split: sum.splits list.splits option.splits)

lemma try_block_create_raises:
  "create rt (completion_request rt request) = Inl e \<Longrightarrow>
   try_block rt request calls = (Inl e, Suc calls)"
  by (simp add: try_block_def call_create_def)

subsection \<open>Integers of too many digits, and documents nested too deep\<close>

lemma takeWhile_digits_then:
  "list_all is_digit ds \<Longrightarrow> \<not> is_digit c \<Longrightarrow> takeWhile is_digit (ds @ c # r) = ds"
  by (induction ds) auto

lemma dropWhile_digits_then:
  "list_all is_digit ds \<Longrightarrow> \<not> is_digit c \<Longrightarrow> dropWhile is_digit (ds @ c # r) = c # r"
  by (induction ds) auto

lemma match_frac_none: "c \<noteq> CHR ''.'' \<Longrightarrow> match_frac (c # r) = ([], c # r)"
  by (simp add: match_frac_def split: list.splits)

lemma match_exp_none: "c \<noteq> CHR ''e'' \<Longrightarrow> c \<noteq> CHR ''E'' \<Longrightarrow> match_exp (c # r) = ([], c # r)"
  by (simp add: match_exp_def)

lemma match_number_long:
  assumes "list_all is_digit (x # xs)" and "x \<noteq> CHR ''0''" and "too_many_digits (x # xs)"
    and "\<not> is_digit c" and "c \<noteq> CHR ''.''" and "c \<noteq> CHR ''e''" and "c \<noteq> CHR ''E''"
  shows "match_number (x # xs @ c # r) = Some (TLongInt, c # r)"
proof -
  from assms(1) have dx: "is_digit x" and dxs: "list_all is_digit xs" by simp_all
  from dx have nm: "x \<noteq> CHR ''-''" by (auto simp: is_digit_def)
  have ip: "match_int_part (x # xs @ c # r) = Some (x # xs, c # r)"
    using dx assms(2) takeWhile_digits_then[OF dxs assms(4)] dropWhile_digits_then[OF dxs assms(4)]
    by (simp add: match_int_part_def)
  show ?thesis
    using nm ip assms(3) match_frac_none[OF assms(5)] match_exp_none[OF assms(6,7)]
    by (simp add: match_number_def Let_def)
qed

lemma tokenize_digit:
  assumes "is_digit x"
  shows "tokenize (x # cs) =
           (case match_number (x # cs) of None \<Rightarrow> [TBad] | Some (tk, r) \<Rightarrow> tk # tokenize r)"
proof -
  have ns: "\<not> is_json_space x" using assms by (auto simp: is_digit_def is_json_space_def)
  have np: "x \<noteq> CHR ''{''" "x \<noteq> CHR ''}''" "x \<noteq> CHR ''[''" "x \<noteq> CHR '']''" "x \<noteq> CHR '':''"
     "x \<noteq> CHR '',''" "x \<noteq> CHR 0x22"
    using assms by (auto simp: is_digit_def)
  have nw: "\<not> starts_with ''null'' (x # cs)" "\<not> starts_with ''true'' (x # cs)"
    "\<not> starts_with ''false'' (x # cs)" "\<not> starts_with ''NaN'' (x # cs)"
    "\<not> starts_with ''Infinity'' (x # cs)" "\<not> starts_with ''-Infinity'' (x # cs)"
    using assms by (auto simp: is_digit_def starts_with_def)
  show ?thesis
    by (simp only: tokenize.simps ns np nw if_False)
qed
lemma tokenize_long_int:
  assumes "list_all is_digit (x # xs)" and "x \<noteq> CHR ''0''" and "too_many_digits (x # xs)"
    and "\<not> is_digit c" and "c \<noteq> CHR ''.''" and "c \<noteq> CHR ''e''" and "c \<noteq> CHR ''E''"
  shows "tokenize (x # xs @ c # r) = TLongInt # tokenize (c # r)"
proof -
  from assms(1) have "is_digit x" by simp
  from tokenize_digit[OF this, of "xs @ c # r"] match_number_long[OF assms, of r]
  show ?thesis by simp
qed

lemma ones_Cons: "ones = CHR ''1'' # replicate 4300 CHR ''1''"
proof -
  have "(4301::nat) = Suc 4300" by simp
  then show ?thesis unfolding ones_def by (simp only: replicate_Suc)
qed

lemma ones_digits: "list_all is_digit ones"
  by (simp add: ones_def list_all_iff is_digit_def)

lemma ones_long: "too_many_digits ones"
  by (simp add: ones_def too_many_digits_def int_max_str_digits_def)

lemma tokenize_ones:
  assumes "\<not> is_digit c" and "c \<noteq> CHR ''.''" and "c \<noteq> CHR ''e''" and "c \<noteq> CHR ''E''"
  shows "tokenize (ones @ c # r) = TLongInt # tokenize (c # r)"
proof -
  have d: "list_all is_digit (CHR ''1'' # replicate 4300 CHR ''1'')"
    using ones_digits unfolding ones_Cons .
  have l: "too_many_digits (CHR ''1'' # replicate 4300 CHR ''1'')"
    using ones_long unfolding ones_Cons .
  have z: "CHR ''1'' \<noteq> CHR ''0''" by simp
  have "tokenize (CHR ''1'' # replicate 4300 CHR ''1'' @ c # r) = TLongInt # tokenize (c # r)"
    using d z l assms by (rule tokenize_long_int)
  then show ?thesis unfolding ones_Cons by (simp only: append_Cons)
qed

lemma tokenize_key_a:
  "tokenize (CHR ''{'' # CHR 0x22 # CHR ''a'' # CHR 0x22 # CHR '':'' # CHR '' '' # s)
     = TLBrace # TString (ustr ''a'') # TColon # tokenize s"
  by (simp add: is_json_space_def ustr_def)

lemma json_loads_long_int:
  assumes "0 < room" and "\<not> is_digit c" and "c \<noteq> CHR ''.''" and "c \<noteq> CHR ''e''" and "c \<noteq> CHR ''E''"
  shows \<open>json_loads room (''{"a": '' @ ones @ c # r) = Inl ValueError\<close>
proof -
  have \<open>tokenize (''{"a": '' @ ones @ c # r)
          = TLBrace # TString (ustr ''a'') # TColon # TLongInt # tokenize (c # r)\<close>
    by (simp only: append_Cons append_Nil tokenize_key_a tokenize_ones[OF assms(2-5)])
  then show ?thesis
    unfolding json_loads_def using assms(1)
    by (simp add: or_decode_error_def del: tokenize.simps)
qed

lemma tokenize_brackets:
  "tokenize (replicate n CHR ''['' @ s) = replicate n TLBrack @ tokenize s"
  by (induction n) (simp_all add: is_json_space_def del: tokenize.simps(2), simp add: is_json_space_def)

lemma parse_step_open_array:
  "x = XValue \<or> x = XValueOrEnd \<Longrightarrow>
   parse_step room (x, st) TLBrack = begin_value room st TLBrack"
  by (cases "(room, (x, st), TLBrack)" rule: parse_step.cases) auto

lemma parse_tokens_too_deep:
  "x = XValue \<or> x = XValueOrEnd \<Longrightarrow> int (length st) \<le> room \<Longrightarrow>
   room < int (length st) + int n \<Longrightarrow>
   parse_tokens room (x, st) (replicate n TLBrack @ ts) = Inl RecursionError"
proof (induction n arbitrary: x st)
  case 0
  then show ?case by simp
next
  case (Suc n)
  show ?case
  proof (cases "int (length st) < room")
    case False
    with Suc.prems(1) show ?thesis
      by (simp add: parse_step_open_array)
  next
    case True
    have "parse_tokens room (XValueOrEnd, FArr [] # st) (replicate n TLBrack @ ts) = Inl RecursionError"
      using True Suc.prems(3) by (intro Suc.IH) auto
    with True Suc.prems(1) show ?thesis
      by (simp add: parse_step_open_array)
  qed
qed

lemma json_loads_too_deep:
  assumes "0 < room"
  shows \<open>json_loads room (''{"a": '' @ replicate (nat room) CHR ''['' @ s) = Inl RecursionError\<close>
proof -
  have \<open>tokenize (''{"a": '' @ replicate (nat room) CHR ''['' @ s)
          = TLBrace # TString (ustr ''a'') # TColon # replicate (nat room) TLBrack @ tokenize s\<close>
    by (simp only: append_Cons append_Nil tokenize_key_a tokenize_brackets)
  moreover have "parse_tokens room (XValue, [FKey [] (ustr ''a'')])
                   (replicate (nat room) TLBrack @ tokenize s) = Inl RecursionError"
    using assms by (intro parse_tokens_too_deep) auto
  ultimately show ?thesis
    unfolding json_loads_def using assms
    by (simp add: or_decode_error_def del: tokenize.simps)
qed

lemma json_pattern_search_no_brace:
  "CHR ''{'' \<notin> set t \<Longrightarrow> json_pattern_search t = None"
  unfolding json_pattern_search_None by auto

lemma asset_pattern_search_no_percent:
  assumes "CHR ''%'' \<notin> set t"
  shows "asset_pattern_search asset t = None"
proof (cases "asset_pattern_search asset t")
  case (Some d)
  from asset_pattern_search_sound[OF Some] obtain pre name gap post where
    "t = pre @ name @ gap @ d @ CHR ''%'' # post"
    unfolding line_asset_percent_def by blast
  then have "CHR ''%'' \<in> set t" by simp
  with assms show ?thesis by simp
qed simp

lemma set_ones: "set ones = {CHR ''1''}"
  by (simp add: ones_def)

lemma asset_pattern_search_here:
  "asset_match_at asset s = Some d \<Longrightarrow> asset_pattern_search asset s = Some d"
  by (cases s) (auto simp: asset_match_at_def split: if_splits)

lemma nifty_ones_found:
  \<open>asset_pattern_search ''NIFTY 50'' (''NIFTY 50 '' @ ones @ ''%'') = Some ones\<close>
proof -
  have ne: "ones \<noteq> []" by (simp add: ones_Cons)
  have "digits_percent (CHR '' '' # ones @ ''%'') = None"
    by (simp add: digits_percent_def is_digit_def)
  then have n: "no_percent_inside '' '' (ones @ ''%'')"
    by (simp add: no_percent_inside_Cons no_percent_inside_Nil)
  have nl: "CHR 0x0A \<notin> set '' ''" by simp
  have "\<exists>name gap post.
          ''NIFTY 50'' @ '' '' @ ones @ CHR ''%'' # [] = name @ gap @ ones @ CHR ''%'' # post \<and>
          map lower_ascii name = map lower_ascii ''NIFTY 50'' \<and> CHR 0x0A \<notin> set gap \<and>
          ones \<noteq> [] \<and> list_all is_digit ones \<and> no_percent_inside gap (ones @ CHR ''%'' # post)"
    using ne ones_digits n nl by blast
  then have \<open>asset_match_at ''NIFTY 50'' (''NIFTY 50'' @ '' '' @ ones @ CHR ''%'' # []) = Some ones\<close>
    by (simp only: asset_match_at_first)
  then have \<open>asset_pattern_search ''NIFTY 50'' (''NIFTY 50'' @ '' '' @ ones @ CHR ''%'' # []) = Some ones\<close>
    by (rule asset_pattern_search_here)
  moreover have \<open>''NIFTY 50 '' @ ones @ ''%'' = ''NIFTY 50'' @ '' '' @ ones @ CHR ''%'' # []\<close>
    by simp
  ultimately show ?thesis by (simp only:)
qed

lemma regex_fallback_long_run:
  \<open>regex_fallback (''NIFTY 50 '' @ ones @ ''%'') = Inl ValueError\<close>
proof -
  have \<open>long_run_found (''NIFTY 50 '' @ ones @ ''%'')\<close>
    unfolding long_run_found_def using nifty_ones_found ones_long
    by (auto simp: MARKET_TRENDS_def)
  then show ?thesis by (simp only: regex_fallback_eq if_True)
qed

subsection \<open>What the extractor returns, and what the handler answers\<close>

lemma regex_fallback_Inr:
  assumes "regex_fallback t = Inr v"
  shows "\<not> long_run_found t \<and>
         v = (if matched_allocation t \<noteq> []
              then PDict [(ustr ''allocation'', PDict (matched_allocation t)),
                          (ustr ''explanation'', PStr (ustr t))]
              else cash_result)"
  using assms by (simp add: regex_fallback_eq split: if_splits)

lemma response_of_fallback:
  "response_of (if a \<noteq> []
                then PDict [(ustr ''allocation'', PDict a), (ustr ''explanation'', PStr s)]
                else cash_result) =
     Inr \<lparr>allocation_percentage = (if a \<noteq> [] then a else [(ustr ''Cash'', PInt 100)]),
          recommendation =
            (if a \<noteq> [] then s
             else ustr ''Unable to parse specific allocations. Please review the full response for details.'')\<rparr>"
  by (simp add: response_of_def cash_result_def InvestmentResponse_def
        dict_get_allocation dict_get_explanation)

lemma extract_cash:
  assumes "json_pattern_search t = None \<or>
           (\<exists>m. json_pattern_search t = Some m \<and> json_loads room m = Inl JSONDecodeError)"
    and "\<forall>asset\<in>set (map fst MARKET_TRENDS). asset_pattern_search asset t = None"
  shows "extract_json_from_text room t =
           Inr (PDict [(ustr ''allocation'', PDict [(ustr ''Cash'', PInt 100)]),
                       (ustr ''explanation'',
                        PStr (ustr ''Unable to parse specific allocations. Please review the full response for details.''))])"
proof -
  from assms(2) have e: "matched_allocation t = []"
    by (simp only: matched_allocation_empty)
  have "\<not> long_run_found t"
  proof
    assume "long_run_found t"
    then obtain a d where mem: "a \<in> set (map fst MARKET_TRENDS)"
      and s: "asset_pattern_search a t = Some d"
      unfolding long_run_found_def by blast
    from assms(2) mem have "asset_pattern_search a t = None" by (rule bspec)
    with s show False by simp
  qed
  with e extract_no_json[OF assms(1)] show ?thesis
    by (simp add: regex_fallback_eq cash_result_def)
qed

lemma response_of_Inr:
  "response_of v = Inr r \<Longrightarrow>
     \<exists>d. v = PDict d \<and>
         dict_get d (ustr ''allocation'') (PDict []) = PDict (allocation_percentage r) \<and>
         dict_get d (ustr ''explanation'') (PStr []) = PStr (recommendation r)"
  by (auto simp: response_of_def InvestmentResponse_def split: pyval.splits)

lemma allocate_investment_success:
  assumes "allocate_investment client rt request calls = (Inr response, calls')"
  shows "client \<noteq> None \<and> calls' = Suc calls \<and>
         (\<exists>t rest v. create rt (completion_request rt request) = Inr (ChatCompletion (Some t # rest)) \<and>
            extract_json_from_text (recursion_room rt) t = Inr v \<and> response_of v = Inr response)"
proof -
  from assms have c: "client \<noteq> None"
    by (auto simp: allocate_investment_def split: if_splits)
  with assms have tb: "try_block rt request calls = (Inr response, calls')"
    by (auto simp: allocate_investment_def split: prod.splits sum.splits)
  with try_block_calls[of rt request calls] have n: "calls' = Suc calls" by simp
  from tb obtain completion where cr: "create rt (completion_request rt request) = Inr completion"
    by (cases "create rt (completion_request rt request)")
       (auto simp: try_block_def call_create_def)
  obtain chs where completion: "completion = ChatCompletion chs" by (cases completion)
  from tb cr completion obtain t rest where chs: "chs = Some t # rest"
    by (auto simp: try_block_def call_create_def split: list.splits option.splits)
  from tb cr completion chs obtain v where
    "extract_json_from_text (recursion_room rt) t = Inr v" "response_of v = Inr response"
    by (auto simp: try_block_def call_create_def split: sum.splits)
  with c n cr completion chs show ?thesis by blast
qed

lemma allocate_investment_answer:
  assumes "client \<noteq> None"
    and "create rt (completion_request rt request) = Inr (ChatCompletion (Some t # rest))"
    and "extract_json_from_text (recursion_room rt) t = Inr v"
  shows "allocate_investment client rt request calls =
           (case response_of v of
              Inl e \<Rightarrow> Inl \<lparr>status_code = 500, detail = exc_str rt e\<rparr>
            | Inr r \<Rightarrow> Inr r, Suc calls)"
  using assms
  by (simp add: allocate_investment_def try_block_def call_create_def split: sum.splits)





lemma matched_allocation_nonempty:
  assumes "asset \<in> set (map fst MARKET_TRENDS)" and "asset_pattern_search asset t \<noteq> None"
  shows "matched_allocation t \<noteq> []"
proof
  assume "matched_allocation t = []"
  then have "\<forall>asset\<in>set (map fst MARKET_TRENDS). asset_pattern_search asset t = None"
    by (simp only: matched_allocation_empty)
  from this assms(1) have "asset_pattern_search asset t = None" by (rule bspec)
  with assms(2) show False by simp
qed

lemma too_many_digits_length: "too_many_digits d \<longleftrightarrow> 4300 < length d"
  by (simp add: too_many_digits_def int_max_str_digits_def)

section \<open>The claims\<close>

text \<open>
  C7. When a required variable is unset or empty at start-up, there is no client, and
  every call of the endpoint fails with the fixed error, the completion service not
  having been called: the number of calls is unchanged.
\<close>

theorem unconfigured_client_fails_fast:
  assumes "falsy (env ''AZURE_OPENAI_API_KEY'') \<or> falsy (env ''AZURE_OPENAI_ENDPOINT'')
           \<or> falsy (env ''AZURE_OPENAI_DEPLOYMENT'')"
  shows "init_client env = None \<and>
         allocate_investment (init_client env) rt request calls =
           (Inl \<lparr>status_code = 500, detail = ''Azure OpenAI client not initialized properly''\<rparr>, calls)"
proof -
  have "init_body env = Inl ValueError"
    using assms by (auto simp: init_body_def Let_def)
  then have "init_client env = None" by (simp add: init_client_def)
  then show ?thesis by (simp add: allocate_investment_def)
qed

theorem unconfigured_client_fails_fast_witness:
  \<open>falsy (unset_env ''AZURE_OPENAI_API_KEY'') \<and>
   allocate_investment (init_client unset_env) (answering ''{}'') stub_request 0 =
     (Inl \<lparr>status_code = 500, detail = ''Azure OpenAI client not initialized properly''\<rparr>, 0)\<close>
proof -
  have h: "falsy (unset_env ''AZURE_OPENAI_API_KEY'')"
    by (simp add: falsy_def unset_env_def)
  then have "falsy (unset_env ''AZURE_OPENAI_API_KEY'') \<or> falsy (unset_env ''AZURE_OPENAI_ENDPOINT'')
           \<or> falsy (unset_env ''AZURE_OPENAI_DEPLOYMENT'')" by simp
  from unconfigured_client_fails_fast[OF this, of \<open>answering ''{}''\<close> stub_request 0] h
  show ?thesis by blast
qed

text \<open>
  C8, as the spec states it: without a client the status is 503. The handler raises an
  error of status 500.
\<close>

theorem unavailable_client_status_counterexample:
  \<open>\<exists>e. fst (allocate_investment None (answering ''{}'') stub_request 0) = Inl e \<and>
        status_code e = 500 \<and> status_code e \<noteq> 503\<close>
  by (simp add: allocate_investment_def)

text \<open>
  C8, amended. Without a client the request fails with status 500 and the detail
  \<^verbatim>\<open>Azure OpenAI client not initialized properly\<close>, and the completion service is not
  called.
\<close>

theorem unavailable_client_status:
  "allocate_investment None rt request calls =
     (Inl \<lparr>status_code = 500, detail = ''Azure OpenAI client not initialized properly''\<rparr>, calls)"
  by (simp add: allocate_investment_def)

text \<open>
  C9. With a client, an exception raised by the completion call, or anywhere in the
  \<^verbatim>\<open>try\<close> block, becomes an error of status 500 whose detail is the message of that
  exception; the completion service has been called once, and not again.
\<close>

theorem exceptions_become_500:
  assumes "client \<noteq> None"
  shows "(\<forall>e. create rt (completion_request rt request) = Inl e \<longrightarrow>
            allocate_investment client rt request calls =
              (Inl \<lparr>status_code = 500, detail = exc_str rt e\<rparr>, Suc calls)) \<and>
         (\<forall>e. fst (try_block rt request calls) = Inl e \<longrightarrow>
            allocate_investment client rt request calls =
              (Inl \<lparr>status_code = 500, detail = exc_str rt e\<rparr>, Suc calls))"
proof -
  have b: "allocate_investment client rt request calls =
             (Inl \<lparr>status_code = 500, detail = exc_str rt e\<rparr>, Suc calls)"
    if "fst (try_block rt request calls) = Inl e" for e
  proof -
    from that try_block_calls[of rt request calls]
    have "try_block rt request calls = (Inl e, Suc calls)"
      by (cases "try_block rt request calls") simp
    with assms show ?thesis by (simp add: allocate_investment_def)
  qed
  have a: "allocate_investment client rt request calls =
             (Inl \<lparr>status_code = 500, detail = exc_str rt e\<rparr>, Suc calls)"
    if "create rt (completion_request rt request) = Inl e" for e
    using b[of e] try_block_create_raises[OF that, of calls] by simp
  from a b show ?thesis by blast
qed

theorem exceptions_become_500_witness:
  \<open>Some stub_client \<noteq> None \<and>
   create (stub_runtime (Inl (APIError ''quota exceeded'')))
     (completion_request (stub_runtime (Inl (APIError ''quota exceeded''))) stub_request)
     = Inl (APIError ''quota exceeded'') \<and>
   allocate_investment (Some stub_client) (stub_runtime (Inl (APIError ''quota exceeded''))) stub_request 0 =
     (Inl \<lparr>status_code = 500, detail = ''quota exceeded''\<rparr>, 1)\<close>
proof -
  have c: \<open>create (stub_runtime (Inl (APIError ''quota exceeded'')))
     (completion_request (stub_runtime (Inl (APIError ''quota exceeded''))) stub_request)
     = Inl (APIError ''quota exceeded'')\<close>
    by (simp add: stub_runtime_def)
  have n: "Some stub_client \<noteq> None" by simp
  from exceptions_become_500[OF n, of \<open>stub_runtime (Inl (APIError ''quota exceeded''))\<close> stub_request 0] c
  have \<open>allocate_investment (Some stub_client) (stub_runtime (Inl (APIError ''quota exceeded''))) stub_request 0 =
     (Inl \<lparr>status_code = 500, detail = exc_str (stub_runtime (Inl (APIError ''quota exceeded''))) (APIError ''quota exceeded'')\<rparr>, Suc 0)\<close>
    by blast
  then show ?thesis using c by (simp add: stub_runtime_def)
qed

text \<open>
  C5, which the program contradicts: the extractor is not total. Of the exceptions of
  \<^verbatim>\<open>json.loads\<close> it catches \<^verbatim>\<open>JSONDecodeError\<close> alone, and it converts the digits found
  after an asset with \<^verbatim>\<open>int\<close> outside any \<^verbatim>\<open>try\<close>. Three texts on which it raises,
  \<open>ones\<close> being a run of 4301 digits: an asset followed by that run and a percent sign,
  with no brace in the text; a substring from \<^verbatim>\<open>{\<close> to \<^verbatim>\<open>}\<close> that is not JSON (a comma
  before the closing brace) and holds that run as a value, where the extractor does not
  go on to the search for percentages; and a substring that opens one array more than
  there is room for, whatever the room.
\<close>

theorem extract_raises:
  \<open>extract_json_from_text room (''NIFTY 50 '' @ ones @ ''%'') = Inl ValueError \<and>
   json_pattern_search (''{"a": '' @ ones @ '',}'') = Some (''{"a": '' @ ones @ '',}'') \<and>
   json_loads (1 + int n) (''{"a": '' @ ones @ '',}'') = Inl ValueError \<and>
   extract_json_from_text (1 + int n) (''{"a": '' @ ones @ '',}'') = Inl ValueError \<and>
   extract_json_from_text (1 + int n) (''{"a": '' @ replicate (Suc n) CHR ''['' @ ''}'')
     = Inl RecursionError\<close>
proof -
  have nb: \<open>CHR ''{'' \<notin> set (''NIFTY 50 '' @ ones @ ''%'')\<close>
    by (simp add: set_ones)
  have 1: \<open>extract_json_from_text room (''NIFTY 50 '' @ ones @ ''%'') = Inl ValueError\<close>
    using extract_no_json[OF disjI1[OF json_pattern_search_no_brace[OF nb]], of room]
    by (simp only: regex_fallback_long_run)
  have \<open>json_pattern_search ([] @ CHR ''{'' # (''"a": '' @ ones @ '','') @ CHR ''}'' # [])
          = Some (CHR ''{'' # (''"a": '' @ ones @ '','') @ [CHR ''}''])\<close>
    by (rule json_pattern_search_embedded) simp_all
  then have 2: \<open>json_pattern_search (''{"a": '' @ ones @ '',}'') = Some (''{"a": '' @ ones @ '',}'')\<close>
    by simp
  have \<open>json_loads (1 + int n) (''{"a": '' @ ones @ CHR '','' # ''}'') = Inl ValueError\<close>
    by (rule json_loads_long_int) (simp_all add: is_digit_def)
  then have 3: \<open>json_loads (1 + int n) (''{"a": '' @ ones @ '',}'') = Inl ValueError\<close>
    by simp
  from 2 3 have 4: \<open>extract_json_from_text (1 + int n) (''{"a": '' @ ones @ '',}'') = Inl ValueError\<close>
    by (simp add: extract_json_from_text_def)
  have \<open>json_pattern_search ([] @ CHR ''{'' # (''"a": '' @ replicate (Suc n) CHR ''['') @ CHR ''}'' # [])
          = Some (CHR ''{'' # (''"a": '' @ replicate (Suc n) CHR ''['') @ [CHR ''}''])\<close>
    by (rule json_pattern_search_embedded) simp_all
  then have 5: \<open>json_pattern_search (''{"a": '' @ replicate (Suc n) CHR ''['' @ ''}'')
                  = Some (''{"a": '' @ replicate (Suc n) CHR ''['' @ ''}'')\<close>
    by simp
  have \<open>json_loads (1 + int n) (''{"a": '' @ replicate (nat (1 + int n)) CHR ''['' @ ''}'')
          = Inl RecursionError\<close>
    by (rule json_loads_too_deep) simp
  moreover have "nat (1 + int n) = Suc n" by simp
  ultimately have 6: \<open>json_loads (1 + int n) (''{"a": '' @ replicate (Suc n) CHR ''['' @ ''}'')
          = Inl RecursionError\<close>
    by (simp only:)
  from 5 6 have 7: \<open>extract_json_from_text (1 + int n) (''{"a": '' @ replicate (Suc n) CHR ''['' @ ''}'')
     = Inl RecursionError\<close>
    by (simp add: extract_json_from_text_def)
  from 1 2 3 4 7 show ?thesis by (intro conjI)
qed

text \<open>
  C4, which the program contradicts. In the text \<^verbatim>\<open>{"a": 11...1 nope}\<close>, with 4301 digits,
  the substring from the first \<^verbatim>\<open>{\<close> to the last \<^verbatim>\<open>}\<close> is the whole text, \<^verbatim>\<open>json.loads\<close>
  does not read it, and no percent sign occurs, so no asset of the catalog is found. The
  extractor does not return \<^verbatim>\<open>{"Cash": 100}\<close> with the fixed explanation: it raises the
  \<^verbatim>\<open>ValueError\<close> of \<^verbatim>\<open>json.loads\<close>, which it does not catch.
\<close>

theorem unparseable_raises:
  \<open>json_pattern_search (''{"a": '' @ ones @ '' nope}'') = Some (''{"a": '' @ ones @ '' nope}'') \<and>
   json_loads (1 + int n) (''{"a": '' @ ones @ '' nope}'') = Inl ValueError \<and>
   CHR ''%'' \<notin> set (''{"a": '' @ ones @ '' nope}'') \<and>
   asset_pattern_search ''NIFTY 50'' (''{"a": '' @ ones @ '' nope}'') = None \<and>
   asset_pattern_search ''Gold'' (''{"a": '' @ ones @ '' nope}'') = None \<and>
   asset_pattern_search ''Bonds'' (''{"a": '' @ ones @ '' nope}'') = None \<and>
   asset_pattern_search ''Mutual Funds'' (''{"a": '' @ ones @ '' nope}'') = None \<and>
   extract_json_from_text (1 + int n) (''{"a": '' @ ones @ '' nope}'') = Inl ValueError\<close>
proof -
  have \<open>json_pattern_search ([] @ CHR ''{'' # (''"a": '' @ ones @ '' nope'') @ CHR ''}'' # [])
          = Some (CHR ''{'' # (''"a": '' @ ones @ '' nope'') @ [CHR ''}''])\<close>
    by (rule json_pattern_search_embedded) simp_all
  then have 1: \<open>json_pattern_search (''{"a": '' @ ones @ '' nope}'') = Some (''{"a": '' @ ones @ '' nope}'')\<close>
    by simp
  have \<open>json_loads (1 + int n) (''{"a": '' @ ones @ CHR '' '' # ''nope}'') = Inl ValueError\<close>
    by (rule json_loads_long_int) (simp_all add: is_digit_def)
  then have 2: \<open>json_loads (1 + int n) (''{"a": '' @ ones @ '' nope}'') = Inl ValueError\<close>
    by simp
  have 3: \<open>CHR ''%'' \<notin> set (''{"a": '' @ ones @ '' nope}'')\<close>
    by (simp add: set_ones)
  from 1 2 have 4: \<open>extract_json_from_text (1 + int n) (''{"a": '' @ ones @ '' nope}'') = Inl ValueError\<close>
    by (simp add: extract_json_from_text_def)
  from 1 2 3 4 asset_pattern_search_no_percent[OF 3] show ?thesis by (intro conjI)
qed

text \<open>
  C10. When the text has no substring from the first \<^verbatim>\<open>{\<close> to the last \<^verbatim>\<open>}\<close>, or one that
  is not JSON, and some asset of the catalog is found, the extractor returns when every
  run of digits found has at most 4300 digits; and whenever it returns, every key of the
  allocation is one of the four names of the catalog, written as the catalog writes it
  whatever the case in the text, no key occurs twice, and every value is an integer that
  is not negative.
\<close>

theorem regex_branch_keys_values:
  assumes "json_pattern_search t = None \<or>
           (\<exists>m. json_pattern_search t = Some m \<and> json_loads room m = Inl JSONDecodeError)"
    and "\<exists>asset\<in>set (map fst MARKET_TRENDS). asset_pattern_search asset t \<noteq> None"
  shows "((\<forall>asset\<in>set (map fst MARKET_TRENDS). \<forall>d. asset_pattern_search asset t = Some d \<longrightarrow>
             length d \<le> 4300) \<longrightarrow>
          (\<exists>v. extract_json_from_text room t = Inr v)) \<and>
         (\<forall>v. extract_json_from_text room t = Inr v \<longrightarrow>
           (\<exists>alloc. v = PDict [(ustr ''allocation'', PDict alloc), (ustr ''explanation'', PStr (ustr t))] \<and>
              alloc \<noteq> [] \<and> distinct (map fst alloc) \<and>
              (\<forall>(k, v)\<in>set alloc.
                 k \<in> ustr ` {''NIFTY 50'', ''Gold'', ''Bonds'', ''Mutual Funds''} \<and>
                 (\<exists>n. v = PInt n \<and> 0 \<le> n))))"
proof -
  from assms(2) obtain asset where mem: "asset \<in> set (map fst MARKET_TRENDS)"
    and s: "asset_pattern_search asset t \<noteq> None" ..
  from mem s have ne: "matched_allocation t \<noteq> []" by (rule matched_allocation_nonempty)
  note e = extract_no_json[OF assms(1)]
  have r: "\<exists>v. extract_json_from_text room t = Inr v"
    if short: "\<forall>asset\<in>set (map fst MARKET_TRENDS). \<forall>d. asset_pattern_search asset t = Some d \<longrightarrow>
             length d \<le> 4300"
  proof -
    have "\<not> long_run_found t"
    proof
      assume "long_run_found t"
      then obtain a d where a: "a \<in> set (map fst MARKET_TRENDS)"
        and f: "asset_pattern_search a t = Some d" and l: "too_many_digits d"
        unfolding long_run_found_def by blast
      from short a have "\<forall>d. asset_pattern_search a t = Some d \<longrightarrow> length d \<le> 4300"
        by (rule bspec)
      with f have "length d \<le> 4300" by blast
      with l show False by (simp add: too_many_digits_length)
    qed
    with e show ?thesis by (simp add: regex_fallback_eq)
  qed
  have kv: "k \<in> ustr ` {''NIFTY 50'', ''Gold'', ''Bonds'', ''Mutual Funds''} \<and>
            (\<exists>n. v = PInt n \<and> 0 \<le> n)"
    if "(k, v) \<in> set (matched_allocation t)" for k v
  proof -
    from that obtain asset d where a: "asset \<in> set (map fst MARKET_TRENDS)"
      and s: "asset_pattern_search asset t = Some d"
      and k: "k = ustr asset" and v: "v = PInt (int_of_digits d)"
      unfolding matched_allocation_member by blast
    from a have "asset \<in> {''NIFTY 50'', ''Gold'', ''Bonds'', ''Mutual Funds''}"
      by (simp add: MARKET_TRENDS_def)
    moreover have "0 \<le> int_of_digits d"
      using asset_pattern_search_digits[OF s] by (simp add: int_of_digits_nonneg)
    ultimately show ?thesis using k v by blast
  qed
  then have all: "\<forall>(k, v)\<in>set (matched_allocation t).
              k \<in> ustr ` {''NIFTY 50'', ''Gold'', ''Bonds'', ''Mutual Funds''} \<and>
              (\<exists>n. v = PInt n \<and> 0 \<le> n)"
    by blast
  have c: "\<exists>alloc. v = PDict [(ustr ''allocation'', PDict alloc), (ustr ''explanation'', PStr (ustr t))] \<and>
              alloc \<noteq> [] \<and> distinct (map fst alloc) \<and>
              (\<forall>(k, v)\<in>set alloc.
                 k \<in> ustr ` {''NIFTY 50'', ''Gold'', ''Bonds'', ''Mutual Funds''} \<and>
                 (\<exists>n. v = PInt n \<and> 0 \<le> n))"
    if "extract_json_from_text room t = Inr v" for v
  proof -
    from that e have "regex_fallback t = Inr v" by simp
    from regex_fallback_Inr[OF this] ne
    have "v = PDict [(ustr ''allocation'', PDict (matched_allocation t)),
                     (ustr ''explanation'', PStr (ustr t))]"
      by simp
    with ne matched_allocation_distinct[of t] all show ?thesis by blast
  qed
  from r c show ?thesis by blast
qed

theorem regex_branch_keys_values_witness:
  \<open>json_pattern_search ''gold about 8%, BONDS 20%'' = None \<and>
   asset_pattern_search ''Gold'' ''gold about 8%, BONDS 20%'' = Some ''8'' \<and>
   extract_json_from_text 900 ''gold about 8%, BONDS 20%'' =
     Inr (PDict [(ustr ''allocation'', PDict [(ustr ''Gold'', PInt 8), (ustr ''Bonds'', PInt 20)]),
                 (ustr ''explanation'', PStr (ustr ''gold about 8%, BONDS 20%''))]) \<and>
   distinct (map fst [(ustr ''Gold'', PInt 8), (ustr ''Bonds'', PInt 20)])\<close>
proof -
  let ?t = \<open>''gold about 8%, BONDS 20%''\<close>
  let ?v = \<open>PDict [(ustr ''allocation'', PDict [(ustr ''Gold'', PInt 8), (ustr ''Bonds'', PInt 20)]),
                   (ustr ''explanation'', PStr (ustr ?t))]\<close>
  have h1: \<open>json_pattern_search ?t = None\<close>
    by code_simp
  have h2: \<open>asset_pattern_search ''Gold'' ?t = Some ''8''\<close>
    by code_simp
  have h3: \<open>\<exists>asset\<in>set (map fst MARKET_TRENDS). asset_pattern_search asset ?t \<noteq> None\<close>
    using h2 by (auto simp: MARKET_TRENDS_def)
  have h4: \<open>extract_json_from_text 900 ?t = Inr ?v\<close>
    by code_simp
  from regex_branch_keys_values[OF disjI1[OF h1] h3, of 900] h4 obtain alloc where
    a: \<open>?v = PDict [(ustr ''allocation'', PDict alloc), (ustr ''explanation'', PStr (ustr ?t))]\<close>
    and d: "distinct (map fst alloc)"
    by blast
  from a have "alloc = [(ustr ''Gold'', PInt 8), (ustr ''Bonds'', PInt 20)]" by simp
  with d h1 h2 h4 show ?thesis by (simp only: simp_thms)
qed




text \<open>
  C6, as the spec states it: the endpoint never answers with an empty allocation. A
  completion that is the empty JSON object is answered with an empty allocation.
\<close>

theorem empty_allocation_only_from_json_counterexample:
  \<open>allocate_investment (Some stub_client) (answering ''{}'') stub_request 0 =
     (Inr \<lparr>allocation_percentage = [], recommendation = []\<rparr>, 1)\<close>
  by code_simp

text \<open>
  C6, amended. In a successful answer to a completion whose substring from the first
  \<^verbatim>\<open>{\<close> to the last \<^verbatim>\<open>}\<close> is missing or is not JSON, the allocation is not empty, and it
  is \<^verbatim>\<open>{"Cash": 100}\<close> when no asset is found. The allocation is empty only when that
  substring is a JSON object whose allocation field is missing or empty.
\<close>

theorem empty_allocation_only_from_json:
  assumes "allocate_investment client rt request calls = (Inr response, calls')"
  shows "\<exists>t rest. create rt (completion_request rt request) = Inr (ChatCompletion (Some t # rest)) \<and>
           ((json_pattern_search t = None \<or>
             (\<exists>m. json_pattern_search t = Some m \<and>
                  json_loads (recursion_room rt) m = Inl JSONDecodeError)) \<longrightarrow>
              allocation_percentage response \<noteq> [] \<and>
              ((\<forall>asset\<in>set (map fst MARKET_TRENDS). asset_pattern_search asset t = None) \<longrightarrow>
                 allocation_percentage response = [(ustr ''Cash'', PInt 100)])) \<and>
           (allocation_percentage response = [] \<longrightarrow>
              (\<exists>m d. json_pattern_search t = Some m \<and>
                     json_loads (recursion_room rt) m = Inr (PDict d) \<and>
                     dict_get d (ustr ''allocation'') (PDict []) = PDict []))"
proof -
  from allocate_investment_success[OF assms] obtain t rest v where
    cr: "create rt (completion_request rt request) = Inr (ChatCompletion (Some t # rest))"
    and ex: "extract_json_from_text (recursion_room rt) t = Inr v"
    and ro: "response_of v = Inr response"
    by blast
  have fb: "allocation_percentage response \<noteq> [] \<and>
              ((\<forall>asset\<in>set (map fst MARKET_TRENDS). asset_pattern_search asset t = None) \<longrightarrow>
                 allocation_percentage response = [(ustr ''Cash'', PInt 100)])"
    if nj: "json_pattern_search t = None \<or>
             (\<exists>m. json_pattern_search t = Some m \<and>
                  json_loads (recursion_room rt) m = Inl JSONDecodeError)"
  proof -
    from extract_no_json[OF nj] ex have "regex_fallback t = Inr v" by simp
    from regex_fallback_Inr[OF this] ro
    have r: "response_of (if matched_allocation t \<noteq> []
               then PDict [(ustr ''allocation'', PDict (matched_allocation t)),
                           (ustr ''explanation'', PStr (ustr t))]
               else cash_result) = Inr response"
      by simp
    show ?thesis
    proof (cases "matched_allocation t = []")
      case True
      with r have "allocation_percentage response = [(ustr ''Cash'', PInt 100)]"
        unfolding response_of_fallback by auto
      then show ?thesis by simp
    next
      case False
      with r have "allocation_percentage response = matched_allocation t"
        unfolding response_of_fallback by auto
      moreover have "\<not> (\<forall>asset\<in>set (map fst MARKET_TRENDS). asset_pattern_search asset t = None)"
        unfolding matched_allocation_empty[symmetric] by (rule False)
      ultimately show ?thesis using False by auto
    qed
  qed
  have js: "\<exists>m d. json_pattern_search t = Some m \<and>
                     json_loads (recursion_room rt) m = Inr (PDict d) \<and>
                     dict_get d (ustr ''allocation'') (PDict []) = PDict []"
    if em: "allocation_percentage response = []"
  proof -
    from em fb have nn: "\<not> (json_pattern_search t = None \<or>
             (\<exists>m. json_pattern_search t = Some m \<and>
                  json_loads (recursion_room rt) m = Inl JSONDecodeError))"
      by blast
    then obtain m where m: "json_pattern_search t = Some m" by auto
    with nn have nl: "json_loads (recursion_room rt) m \<noteq> Inl JSONDecodeError" by simp
    have "\<exists>w. json_loads (recursion_room rt) m = Inr w"
    proof (cases "json_loads (recursion_room rt) m")
      case (Inl e)
      with nl have "e \<noteq> JSONDecodeError" by simp
      with Inl m have "extract_json_from_text (recursion_room rt) t = Inl e"
        by (simp add: extract_json_from_text_def)
      with ex show ?thesis by simp
    qed simp
    then obtain w where w: "json_loads (recursion_room rt) m = Inr w" ..
    with m ex have "v = w" by (simp add: extract_json_from_text_def)
    with response_of_Inr[OF ro] em obtain d where "w = PDict d"
      "dict_get d (ustr ''allocation'') (PDict []) = PDict []" by auto
    with m w show ?thesis by blast
  qed
  from cr fb js show ?thesis by blast
qed

theorem empty_allocation_only_from_json_witness:
  \<open>allocate_investment (Some stub_client) (answering ''no idea {'') stub_request 0 =
     (Inr \<lparr>allocation_percentage = [(ustr ''Cash'', PInt 100)],
           recommendation = ustr ''Unable to parse specific allocations. Please review the full response for details.''\<rparr>, 1) \<and>
   json_pattern_search ''no idea {'' = None \<and>
   allocation_percentage \<lparr>allocation_percentage = [(ustr ''Cash'', PInt 100)],
           recommendation = ustr ''Unable to parse specific allocations. Please review the full response for details.''\<rparr> \<noteq> []\<close>
proof -
  let ?r = \<open>\<lparr>allocation_percentage = [(ustr ''Cash'', PInt 100)],
           recommendation = ustr ''Unable to parse specific allocations. Please review the full response for details.''\<rparr>\<close>
  have a: \<open>allocate_investment (Some stub_client) (answering ''no idea {'') stub_request 0 = (Inr ?r, 1)\<close>
    by code_simp
  have j: \<open>json_pattern_search ''no idea {'' = None\<close> by code_simp
  from empty_allocation_only_from_json[OF a] obtain t rest where
    c: \<open>create (answering ''no idea {'') (completion_request (answering ''no idea {'') stub_request)
          = Inr (ChatCompletion (Some t # rest))\<close>
    and i: "(json_pattern_search t = None \<or>
             (\<exists>m. json_pattern_search t = Some m \<and>
                  json_loads (recursion_room (answering ''no idea {'')) m = Inl JSONDecodeError)) \<longrightarrow>
              allocation_percentage ?r \<noteq> []"
    by blast
  from c have \<open>t = ''no idea {''\<close> by (simp add: answering_def stub_runtime_def)
  with i j have "allocation_percentage ?r \<noteq> []" by blast
  with a j show ?thesis by blast
qed




text \<open>
  C2, as the spec states it: when the substring is JSON, the endpoint answers with its
  two fields, whatever their types. An allocation that is a number is refused by the
  response model, and the endpoint answers with status 500.
\<close>

theorem json_branch_endpoint_counterexample:
  \<open>json_pattern_search ''{"allocation": 5}'' = Some ''{"allocation": 5}'' \<and>
   json_loads 900 ''{"allocation": 5}'' = Inr (PDict [(ustr ''allocation'', PInt 5)]) \<and>
   allocate_investment (Some stub_client) (answering ''{"allocation": 5}'') stub_request 0 =
     (Inl \<lparr>status_code = 500, detail = stub_str ValidationError\<rparr>, 1)\<close>
  by code_simp

text \<open>
  C2, amended. The substring tried is the one from the first \<^verbatim>\<open>{\<close> of the text to its last
  \<^verbatim>\<open>}\<close>. When it is a JSON object, the extractor returns that object as read. The endpoint
  answers with the field \<^verbatim>\<open>allocation\<close> (an empty mapping when missing) and the field
  \<^verbatim>\<open>explanation\<close> (an empty string when missing) when the former is a mapping and the
  latter a string, whatever the mapping holds, and with status 500 otherwise.
\<close>

theorem json_branch_endpoint:
  assumes "client \<noteq> None"
    and "create rt (completion_request rt request) = Inr (ChatCompletion (Some t # rest))"
    and "json_pattern_search t = Some m"
    and "json_loads (recursion_room rt) m = Inr v"
  shows "(\<exists>pre body post. t = pre @ m @ post \<and> m = CHR ''{'' # body @ [CHR ''}''] \<and>
            CHR ''{'' \<notin> set pre \<and> CHR ''}'' \<notin> set post) \<and>
         extract_json_from_text (recursion_room rt) t = Inr v \<and>
         (\<exists>d. v = PDict d \<and>
            (\<forall>a s. dict_get d (ustr ''allocation'') (PDict []) = PDict a \<longrightarrow>
                   dict_get d (ustr ''explanation'') (PStr []) = PStr s \<longrightarrow>
                   allocate_investment client rt request calls =
                     (Inr \<lparr>allocation_percentage = a, recommendation = s\<rparr>, Suc calls)) \<and>
            ((\<forall>a. dict_get d (ustr ''allocation'') (PDict []) \<noteq> PDict a) \<or>
             (\<forall>s. dict_get d (ustr ''explanation'') (PStr []) \<noteq> PStr s) \<longrightarrow>
               allocate_investment client rt request calls =
                 (Inl \<lparr>status_code = 500, detail = exc_str rt ValidationError\<rparr>, Suc calls)))"
proof -
  from json_pattern_search_Some[OF assms(3)] obtain pre body post where
    sub: "t = pre @ m @ post" "m = CHR ''{'' # body @ [CHR ''}'']"
         "CHR ''{'' \<notin> set pre" "CHR ''}'' \<notin> set post"
    by blast
  from assms(4) sub(2) obtain d where d: "v = PDict d"
    using json_loads_object[of "recursion_room rt" "body @ [CHR ''}'']" v] by auto
  have ex: "extract_json_from_text (recursion_room rt) t = Inr (PDict d)"
    using assms(3,4) d by (simp add: extract_json_from_text_def)
  note al = allocate_investment_answer[OF assms(1,2) ex, of calls]
  have ok: "allocate_investment client rt request calls =
                  (Inr \<lparr>allocation_percentage = a, recommendation = s\<rparr>, Suc calls)"
    if "dict_get d (ustr ''allocation'') (PDict []) = PDict a"
      and "dict_get d (ustr ''explanation'') (PStr []) = PStr s" for a s
    using al that by (simp add: response_of_def InvestmentResponse_def)
  have bad: "allocate_investment client rt request calls =
              (Inl \<lparr>status_code = 500, detail = exc_str rt ValidationError\<rparr>, Suc calls)"
    if "(\<forall>a. dict_get d (ustr ''allocation'') (PDict []) \<noteq> PDict a) \<or>
          (\<forall>s. dict_get d (ustr ''explanation'') (PStr []) \<noteq> PStr s)"
  proof -
    from that have "response_of (PDict d) = Inl ValidationError"
      by (auto simp: response_of_def InvestmentResponse_def split: pyval.splits)
    with al show ?thesis by simp
  qed
  from sub have "\<exists>pre body post. t = pre @ m @ post \<and> m = CHR ''{'' # body @ [CHR ''}''] \<and>
            CHR ''{'' \<notin> set pre \<and> CHR ''}'' \<notin> set post" by blast
  moreover from ex d have "extract_json_from_text (recursion_room rt) t = Inr v" by simp
  moreover from d ok bad have "\<exists>d. v = PDict d \<and>
            (\<forall>a s. dict_get d (ustr ''allocation'') (PDict []) = PDict a \<longrightarrow>
                   dict_get d (ustr ''explanation'') (PStr []) = PStr s \<longrightarrow>
                   allocate_investment client rt request calls =
                     (Inr \<lparr>allocation_percentage = a, recommendation = s\<rparr>, Suc calls)) \<and>
            ((\<forall>a. dict_get d (ustr ''allocation'') (PDict []) \<noteq> PDict a) \<or>
             (\<forall>s. dict_get d (ustr ''explanation'') (PStr []) \<noteq> PStr s) \<longrightarrow>
               allocate_investment client rt request calls =
                 (Inl \<lparr>status_code = 500, detail = exc_str rt ValidationError\<rparr>, Suc calls))"
    by blast
  ultimately show ?thesis by blast
qed

theorem json_branch_endpoint_witness:
  \<open>Some stub_client \<noteq> None \<and>
   json_pattern_search ''{"allocation": {"NIFTY 50": 40, "Bonds": 60}, "explanation": "balanced"}'' =
     Some ''{"allocation": {"NIFTY 50": 40, "Bonds": 60}, "explanation": "balanced"}'' \<and>
   json_loads 900 ''{"allocation": {"NIFTY 50": 40, "Bonds": 60}, "explanation": "balanced"}'' =
     Inr (PDict [(ustr ''allocation'', PDict [(ustr ''NIFTY 50'', PInt 40), (ustr ''Bonds'', PInt 60)]),
                 (ustr ''explanation'', PStr (ustr ''balanced''))]) \<and>
   allocate_investment (Some stub_client)
     (answering ''{"allocation": {"NIFTY 50": 40, "Bonds": 60}, "explanation": "balanced"}'')
     stub_request 0 =
     (Inr \<lparr>allocation_percentage = [(ustr ''NIFTY 50'', PInt 40), (ustr ''Bonds'', PInt 60)],
           recommendation = ustr ''balanced''\<rparr>, 1)\<close>
proof -
  let ?t = \<open>''{"allocation": {"NIFTY 50": 40, "Bonds": 60}, "explanation": "balanced"}''\<close>
  let ?a = \<open>[(ustr ''NIFTY 50'', PInt 40), (ustr ''Bonds'', PInt 60)]\<close>
  let ?d = \<open>[(ustr ''allocation'', PDict ?a), (ustr ''explanation'', PStr (ustr ''balanced''))]\<close>
  have c: "Some stub_client \<noteq> None" by simp
  have cr: "create (answering ?t) (completion_request (answering ?t) stub_request)
              = Inr (ChatCompletion (Some ?t # []))"
    by (simp add: answering_def stub_runtime_def)
  have rr: "recursion_room (answering ?t) = 900"
    by (simp add: answering_def stub_runtime_def)
  have p: "json_pattern_search ?t = Some ?t" by code_simp
  have j: "json_loads 900 ?t = Inr (PDict ?d)" by code_simp
  from j rr have j': "json_loads (recursion_room (answering ?t)) ?t = Inr (PDict ?d)"
    by (simp only:)
  have a: "dict_get ?d (ustr ''allocation'') (PDict []) = PDict ?a"
    by (rule dict_get_allocation)
  have e: "dict_get ?d (ustr ''explanation'') (PStr []) = PStr (ustr ''balanced'')"
    by (rule dict_get_explanation)
  from json_branch_endpoint[OF c cr p j', of 0] obtain d where
    d: "PDict ?d = PDict d"
    and r: "\<forall>a s. dict_get d (ustr ''allocation'') (PDict []) = PDict a \<longrightarrow>
                   dict_get d (ustr ''explanation'') (PStr []) = PStr s \<longrightarrow>
                   allocate_investment (Some stub_client) (answering ?t) stub_request 0 =
                     (Inr \<lparr>allocation_percentage = a, recommendation = s\<rparr>, Suc 0)"
    by blast
  from d have "d = ?d" by simp
  with r a e
  have "allocate_investment (Some stub_client) (answering ?t) stub_request 0 =
          (Inr \<lparr>allocation_percentage = ?a, recommendation = ustr ''balanced''\<rparr>, Suc 0)"
    by blast
  with c p j show ?thesis by simp
qed

end
